theory Spec2Isabelle
  imports Main "HOL-Library.AList"
begin

section \<open>The dates helper module\<close>

text \<open>
  The schedule module imports a sibling module \<open>dates\<close> (and, through it, the standard
  calendar) that is not part of the sources. Everything in this section is therefore
  modelled from the spec: an instant is a date plus a time of day, and the schedule code
  moves it by whole "units of time" (\<open>nSecs\<close>), days, months and years. An instant is
  represented by the number of time units (seconds) since the midnight that begins the
  day with proleptic Gregorian ordinal 0, so that day 1 is 0001-01-01, a Monday.
\<close>

type_synonym instant = int

datatype stype = once | daily | weekly | monthly | yearly

text \<open>
  One record stands for the instances of the five schedule classes; \<open>sType\<close> says which
  class an instance belongs to and selects the methods. The classes name the interval
  attribute \<open>nInterval\<close> or \<open>interval\<close>; the record has one field for both. Only monthly
  schedules have \<open>weeks\<close>, a dictionary that is kept as an association list.
\<close>

record schedule =
  sType :: stype
  start :: instant
  sEnd :: "instant option"
  nInterval :: int
  lDays :: "int list"
  weeks :: "(int \<times> int list) list"


definition date_of :: "instant \<Rightarrow> int" where
  \<comment> \<open>Modelled from the spec: the calendar date of an instant, as a day ordinal.\<close>
  "date_of ts = ts div 86400"

definition time_of :: "instant \<Rightarrow> int" where
  \<comment> \<open>Modelled from the spec: the time of day of an instant, in time units after midnight.\<close>
  "time_of ts = ts mod 86400"

definition combine :: "int \<Rightarrow> int \<Rightarrow> instant" where
  \<comment> \<open>Modelled from the spec: a calendar date combined with a time of day.\<close>
  "combine d t = d * 86400 + t"

definition weekday :: "int \<Rightarrow> int" where
  \<comment> \<open>Modelled from the spec: ISO weekday of a day ordinal, 0 = Monday .. 6 = Sunday.\<close>
  "weekday d = (d + 6) mod 7"

definition is_leap :: "int \<Rightarrow> bool" where
  \<comment> \<open>Modelled from the spec: Gregorian leap years.\<close>
  "is_leap y = (y mod 4 = 0 \<and> (y mod 100 \<noteq> 0 \<or> y mod 400 = 0))"

definition leap_day :: "int \<Rightarrow> int" where
  "leap_day y = (if is_leap y then 1 else 0)"

definition days_before_year :: "int \<Rightarrow> int" where
  \<comment> \<open>Modelled from the spec: number of days before January 1st of year \<open>y\<close>.\<close>
  "days_before_year y = (y - 1) * 365 + (y - 1) div 4 - (y - 1) div 100 + (y - 1) div 400"

definition days_in_month :: "int \<Rightarrow> int \<Rightarrow> int" where
  \<comment> \<open>Modelled from the spec: month lengths, 28 to 31 days.\<close>
  "days_in_month y m =
     (if m = 2 then 28 + leap_day y
      else if m = 4 \<or> m = 6 \<or> m = 9 \<or> m = 11 then 30 else 31)"

definition days_before_month :: "int \<Rightarrow> int \<Rightarrow> int" where
  \<comment> \<open>Modelled from the spec: number of days of year \<open>y\<close> before the first of month \<open>m\<close>.\<close>
  "days_before_month y m =
     (if m \<le> 1 then 0 else if m = 2 then 31
      else leap_day y +
        (if m = 3 then 59 else if m = 4 then 90 else if m = 5 then 120
         else if m = 6 then 151 else if m = 7 then 181 else if m = 8 then 212
         else if m = 9 then 243 else if m = 10 then 273 else if m = 11 then 304
         else 334))"

definition ymd2ord :: "int \<Rightarrow> int \<Rightarrow> int \<Rightarrow> int" where
  \<comment> \<open>Modelled from the spec: day ordinal of the date year \<open>y\<close>, month \<open>m\<close>, day \<open>d\<close>.\<close>
  "ymd2ord y m d = days_before_year y + days_before_month y m + d"

definition year_of_ord :: "int \<Rightarrow> int" where
  \<comment> \<open>Modelled from the spec: the year a day ordinal falls in: an estimate from the mean
      year length (146097 days in 400 years), corrected by at most one year.\<close>
  "year_of_ord n =
     (let y = (400 * (n - 1)) div 146097 + 1
      in if n \<le> days_before_year y then y - 1
         else if days_before_year (y + 1) < n then y + 1
         else y)"

definition month_of_yday :: "int \<Rightarrow> int \<Rightarrow> int" where
  \<comment> \<open>Modelled from the spec: the month holding the \<open>k\<close>-th day (from 1) of year \<open>y\<close>.\<close>
  "month_of_yday y k =
     (if k \<le> 31 then 1
      else let j = k - leap_day y in
        if k \<le> 59 + leap_day y then 2
        else if j \<le> 90 then 3 else if j \<le> 120 then 4 else if j \<le> 151 then 5
        else if j \<le> 181 then 6 else if j \<le> 212 then 7 else if j \<le> 243 then 8
        else if j \<le> 273 then 9 else if j \<le> 304 then 10 else if j \<le> 334 then 11
        else 12)"

definition year_of :: "instant \<Rightarrow> int" where
  "year_of ts = year_of_ord (date_of ts)"

definition yday_of :: "instant \<Rightarrow> int" where
  \<comment> \<open>Modelled from the spec: day of the year, counted from 1.\<close>
  "yday_of ts = date_of ts - days_before_year (year_of ts)"

definition month_of :: "instant \<Rightarrow> int" where
  "month_of ts = month_of_yday (year_of ts) (yday_of ts)"

definition day_of :: "instant \<Rightarrow> int" where
  \<comment> \<open>Modelled from the spec: day of the month, counted from 1.\<close>
  "day_of ts = yday_of ts - days_before_month (year_of ts) (month_of ts)"

definition date :: "int \<Rightarrow> int \<Rightarrow> int \<Rightarrow> int \<Rightarrow> int \<Rightarrow> int \<Rightarrow> instant" where
  \<comment> \<open>Modelled from the spec: the instant of a calendar date and a clock time.\<close>
  "date y m d hh mm ss = combine (ymd2ord y m d) (hh * 3600 + mm * 60 + ss)"

definition truncate :: "instant \<Rightarrow> string \<Rightarrow> instant" where
  \<comment> \<open>Modelled from the spec: truncation of an instant to the start of its day, its week
      (Monday), its month or its year.\<close>
  "truncate ts unit =
     (if unit = ''day'' then combine (date_of ts) 0
      else if unit = ''week'' then combine (date_of ts - weekday (date_of ts)) 0
      else if unit = ''month'' then combine (ymd2ord (year_of ts) (month_of ts) 1) 0
      else if unit = ''year'' then combine (ymd2ord (year_of ts) 1 1) 0
      else ts)"

definition delta_nSecs :: "instant \<Rightarrow> int \<Rightarrow> instant" where
  \<comment> \<open>Modelled from the spec: an instant moved by \<open>n\<close> units of time.\<close>
  "delta_nSecs ts n = ts + n"

definition delta_nDays :: "instant \<Rightarrow> int \<Rightarrow> instant" where
  \<comment> \<open>Modelled from the spec: an instant moved by \<open>n\<close> days.\<close>
  "delta_nDays ts n = ts + n * 86400"

definition delta_nMonths :: "instant \<Rightarrow> int \<Rightarrow> instant" where
  \<comment> \<open>Modelled from the spec: an instant moved by \<open>n\<close> calendar months; a day of the month
      that the target month lacks is clipped to its last day (the schedule code only
      relies on this for the three-month default horizon of \<open>steps\<close>).\<close>
  "delta_nMonths ts n =
     (let i = year_of ts * 12 + (month_of ts - 1) + n;
          y = i div 12; m = i mod 12 + 1
      in combine (ymd2ord y m (min (day_of ts) (days_in_month y m))) (time_of ts))"

definition delta_nYears :: "instant \<Rightarrow> int \<Rightarrow> instant" where
  \<comment> \<open>Modelled from the spec: an instant moved by \<open>n\<close> calendar years, with the same
      clipping of the day of the month.\<close>
  "delta_nYears ts n =
     (let y = year_of ts + n; m = month_of ts
      in combine (ymd2ord y m (min (day_of ts) (days_in_month y m))) (time_of ts))"

definition monthrange :: "int \<Rightarrow> int \<Rightarrow> int \<times> int" where
  \<comment> \<open>Modelled from the spec: weekday of the first day of a month, and the month's length.\<close>
  "monthrange y m = (weekday (ymd2ord y m 1), days_in_month y m)"

section \<open>Schedules\<close>

datatype py_error = IndexError | ZeroDivisionError | UnboundLocalError

subsection \<open>Period arithmetic\<close>

definition start_of_period :: "schedule \<Rightarrow> instant \<Rightarrow> instant" where
  "start_of_period s ts =
     (case sType s of
        once \<Rightarrow> truncate ts ''day''
      | daily \<Rightarrow> truncate ts ''day''
      | weekly \<Rightarrow> truncate ts ''week''
      | monthly \<Rightarrow> truncate ts ''month''
      | yearly \<Rightarrow> truncate ts ''year'')"

definition period_day :: "schedule \<Rightarrow> instant \<Rightarrow> int" where
  "period_day s ts =
     (case sType s of
        once \<Rightarrow> 0
      | daily \<Rightarrow> 0
      | weekly \<Rightarrow> weekday (date_of ts)
      | monthly \<Rightarrow> day_of ts
      | yearly \<Rightarrow> yday_of ts)"

definition offset :: "schedule \<Rightarrow> int \<Rightarrow> int" where
  \<comment> \<open>\<open>Schedule._offset\<close>: only the monthly and yearly classes define \<open>offset\<close>.\<close>
  "offset s day = (if sType s = monthly \<or> sType s = yearly then day - 1 else day)"

definition get_interval :: "schedule \<Rightarrow> instant \<Rightarrow> instant option" where
  \<comment> \<open>\<open>None\<close> stands for the ZeroDivisionError of \<open>dlt % 0\<close>. The difference of two
      truncated instants is a whole number of days, read by \<open>.days\<close>.\<close>
  "get_interval s ts =
     (case sType s of
        once \<Rightarrow> Some (truncate ts ''day'')
      | daily \<Rightarrow>
          (let start_period = start_of_period s (start s);
               ts_period = start_of_period s ts;
               dlt = (ts_period - start_period) div 86400
           in if nInterval s = 0 then None
              else Some (delta_nDays start_period (dlt - dlt mod nInterval s)))
      | weekly \<Rightarrow>
          (let start_period = start_of_period s (start s);
               ts_period = start_of_period s ts;
               dlt = ((ts_period - start_period) div 86400) div 7
           in if nInterval s = 0 then None
              else Some (delta_nDays start_period (7 * (dlt - dlt mod nInterval s))))
      | monthly \<Rightarrow>
          (let start_period = start_of_period s (start s);
               ts_period = start_of_period s ts;
               delta_years = year_of ts_period - year_of start_period;
               delta_months = month_of ts_period - month_of start_period;
               dlt = delta_years * 12 + delta_months
           in if nInterval s = 0 then None
              else Some (delta_nMonths start_period (dlt - dlt mod nInterval s)))
      | yearly \<Rightarrow>
          (let start_period = start_of_period s (start s);
               ts_period = start_of_period s ts;
               dlt = year_of ts_period - year_of start_period
           in if nInterval s = 0 then None
              else Some (delta_nYears start_period (dlt - dlt mod nInterval s))))"

definition next_interval :: "schedule \<Rightarrow> instant \<Rightarrow> instant option" where
  "next_interval s ts =
     (case get_interval s ts of
        None \<Rightarrow> None
      | Some interval \<Rightarrow>
          Some (case sType s of
                  once \<Rightarrow> delta_nDays interval (nInterval s)
                | daily \<Rightarrow> delta_nDays interval (nInterval s)
                | weekly \<Rightarrow> delta_nDays interval (7 * nInterval s)
                | monthly \<Rightarrow> delta_nMonths interval (nInterval s)
                | yearly \<Rightarrow> delta_nYears interval (nInterval s)))"

definition last_interval :: "schedule \<Rightarrow> instant \<Rightarrow> instant option" where
  "last_interval s ts =
     (case get_interval s ts of
        None \<Rightarrow> None
      | Some interval \<Rightarrow>
          Some (case sType s of
                  once \<Rightarrow> delta_nDays interval (- nInterval s)
                | daily \<Rightarrow> delta_nDays interval (- nInterval s)
                | weekly \<Rightarrow> delta_nDays interval (- (7 * nInterval s))
                | monthly \<Rightarrow> delta_nMonths interval (- nInterval s)
                | yearly \<Rightarrow> delta_nYears interval (- nInterval s)))"

subsection \<open>The days of a schedule\<close>

text \<open>
  \<open>Monthly.days\<close> keeps a Python set of days; the model keeps a list without duplicates
  (\<open>remdups\<close>, \<open>List.insert\<close>) and sorts it at the end, as \<open>sorted(list(days))\<close> does.
  \<open>in_week wk k dow\<close> is the test \<open>k in self.weeks and dow in self.weeks[k]\<close>.
\<close>

definition in_week :: "(int \<times> int list) list \<Rightarrow> int \<Rightarrow> int \<Rightarrow> bool" where
  "in_week wk k dow = (case map_of wk k of None \<Rightarrow> False | Some l \<Rightarrow> dow \<in> set l)"

function days_loop ::
  "(int \<times> int list) list \<Rightarrow> int \<Rightarrow> int \<Rightarrow> int \<Rightarrow> int \<Rightarrow> int \<Rightarrow> int list \<Rightarrow> int list" where
  "days_loop wk sdow mdays day dow week acc =
     (if mdays < day then acc
      else
        let week1 = (if dow = sdow then week + 1 else week);
            acc1 = (if week1 \<noteq> 5 \<and> in_week wk week1 dow then List.insert day acc else acc);
            acc2 = (if mdays - 6 \<le> day \<and> in_week wk 5 dow then List.insert day acc1 else acc1);
            dow1 = (if dow = 6 then 0 else dow + 1)
        in days_loop wk sdow mdays (day + 1) dow1 week1 acc2)"
  by pat_completeness auto
termination
  by (relation "measure (\<lambda>(wk, sdow, mdays, day, dow, week, acc). nat (mdays + 1 - day))") auto

declare days_loop.simps [simp del]

definition Monthly_days :: "schedule \<Rightarrow> instant \<Rightarrow> int list" where
  "Monthly_days s ts =
     (if weeks s = [] then sort (remdups (lDays s))
      else
        case monthrange (year_of ts) (month_of ts) of
          (sdow, mdays) \<Rightarrow> sort (days_loop (weeks s) sdow mdays 1 sdow 0 (remdups (lDays s))))"

definition days :: "schedule \<Rightarrow> instant \<Rightarrow> int list" where
  "days s ts = (if sType s = monthly then Monthly_days s ts else lDays s)"

subsection \<open>The step engine\<close>

text \<open>
  The two searches first compute a candidate and then compare it with the bounds of the
  schedule. An exception of the Python code is a left value. The retry of a search calls
  the search itself, so both are partial functions: \<open>None\<close> means that the call does not
  return, \<open>Some (Inr None)\<close> that it returns Python's \<open>None\<close>.
\<close>

fun first_le :: "int \<Rightarrow> int list \<Rightarrow> int option" where
  \<comment> \<open>\<open>for d in ...: if d <= ts_day: break\<close>: the value of \<open>d\<close> after the loop.\<close>
  "first_le t [] = None"
| "first_le t [d] = Some d"
| "first_le t (d # ds) = (if d \<le> t then Some d else first_le t ds)"

fun first_ge :: "int \<Rightarrow> int list \<Rightarrow> int option" where
  \<comment> \<open>\<open>for d in ...: if ts_day <= d: break\<close>: the value of \<open>d\<close> after the loop.\<close>
  "first_ge t [] = None"
| "first_ge t [d] = Some d"
| "first_ge t (d # ds) = (if t \<le> d then Some d else first_ge t ds)"

definition prev_step_day :: "schedule \<Rightarrow> instant \<Rightarrow> py_error + instant" where
  "prev_step_day s ts =
     (case get_interval s ts of
        None \<Rightarrow> Inl ZeroDivisionError
      | Some interval \<Rightarrow>
          let ts_period = start_of_period s ts;
              ts_day = (if time_of ts \<le> time_of (start s)
                        then period_day s ts - 1 else period_day s ts);
              ds = days s ts
          in if ds = [] then Inl IndexError
             else if interval < ts_period
               then Inr (delta_nDays interval (offset s (last ds)))
             else if ts_day < hd ds
               then (case last_interval s ts of
                       None \<Rightarrow> Inl ZeroDivisionError
                     | Some interval1 \<Rightarrow> Inr (delta_nDays interval1 (offset s (last ds))))
             else if last ds \<le> ts_day
               then Inr (delta_nDays interval (offset s (last ds)))
             else (case first_le ts_day (rev (sort ds)) of
                     None \<Rightarrow> Inl UnboundLocalError
                   | Some d \<Rightarrow> Inr (delta_nDays interval (offset s d))))"

definition next_step_day :: "schedule \<Rightarrow> instant \<Rightarrow> py_error + instant" where
  "next_step_day s ts =
     (case get_interval s ts of
        None \<Rightarrow> Inl ZeroDivisionError
      | Some interval \<Rightarrow>
          let ts_period = start_of_period s ts;
              ts_day = (if time_of (start s) \<le> time_of ts
                        then period_day s ts + 1 else period_day s ts);
              ds = days s ts
          in if interval < ts_period
               then (case next_interval s ts of
                       None \<Rightarrow> Inl ZeroDivisionError
                     | Some interval1 \<Rightarrow>
                         if ds = [] then Inl IndexError
                         else Inr (delta_nDays interval1 (offset s (hd ds))))
             else if ds = [] then Inl IndexError
             else if last ds < ts_day
               then (case next_interval s ts of
                       None \<Rightarrow> Inl ZeroDivisionError
                     | Some interval1 \<Rightarrow> Inr (delta_nDays interval1 (offset s (hd ds))))
             else if ts_day \<le> hd ds
               then Inr (delta_nDays interval (offset s (hd ds)))
             else (case first_ge ts_day ds of
                     None \<Rightarrow> Inl UnboundLocalError
                   | Some d \<Rightarrow> Inr (delta_nDays interval (offset s d))))"

partial_function (option) prev_step ::
  "schedule \<Rightarrow> instant \<Rightarrow> (py_error + instant option) option" where
  "prev_step s ts =
     (case prev_step_day s ts of
        Inl e \<Rightarrow> Some (Inl e)
      | Inr step_day \<Rightarrow>
          let prev = combine (date_of step_day) (time_of (start s))
          in if prev < start s then Some (Inr None)
             else (case sEnd s of
                     None \<Rightarrow> Some (Inr (Some prev))
                   | Some e \<Rightarrow>
                       if e < prev then prev_step s (delta_nSecs e 1)
                       else Some (Inr (Some prev))))"

partial_function (option) next_step ::
  "schedule \<Rightarrow> instant \<Rightarrow> (py_error + instant option) option" where
  "next_step s ts =
     (case next_step_day s ts of
        Inl e \<Rightarrow> Some (Inl e)
      | Inr step_day \<Rightarrow>
          let nxt = combine (date_of step_day) (time_of (start s))
          in if (case sEnd s of None \<Rightarrow> False | Some e \<Rightarrow> e < nxt) then Some (Inr None)
             else if nxt < start s then next_step s (delta_nSecs (start s) (- 1))
             else Some (Inr (Some nxt)))"

declare prev_step.simps [code]
declare next_step.simps [code]

definition first_step :: "schedule \<Rightarrow> (py_error + instant option) option" where
  "first_step s = next_step s (delta_nSecs (start s) (- 1))"

definition last_step :: "schedule \<Rightarrow> (py_error + instant option) option" where
  "last_step s =
     (case sEnd s of None \<Rightarrow> Some (Inr None) | Some e \<Rightarrow> prev_step s (delta_nSecs e 1))"

subsection \<open>Enumeration of steps\<close>

text \<open>
  \<open>steps\<close> is a generator. The model returns the list of the instants it yields, and
  the exception that ended it, if one did; \<open>None\<close> means that the loop does not end.
\<close>

partial_function (option) steps_loop ::
  "schedule \<Rightarrow> instant \<Rightarrow> instant \<Rightarrow> (instant list \<times> py_error option) option" where
  "steps_loop s step before =
     (case next_step s step of
        None \<Rightarrow> None
      | Some (Inl e) \<Rightarrow> Some ([], Some e)
      | Some (Inr None) \<Rightarrow> Some ([], None)
      | Some (Inr (Some step1)) \<Rightarrow>
          if step1 \<le> before
          then Option.bind (steps_loop s step1 before) (\<lambda>r. Some (step1 # fst r, snd r))
          else Some ([], None))"

declare steps_loop.simps [code]

definition steps ::
  "schedule \<Rightarrow> instant option \<Rightarrow> instant option \<Rightarrow> (instant list \<times> py_error option) option" where
  "steps s after before =
     (let after1 = (case after of None \<Rightarrow> delta_nSecs (start s) (- 1) | Some a \<Rightarrow> a);
          before1 = (case before of
                       Some b \<Rightarrow> b
                     | None \<Rightarrow> (case sEnd s of
                                  Some e \<Rightarrow> delta_nSecs e 1
                                | None \<Rightarrow> delta_nMonths (start s) 3))
      in steps_loop s after1 before1)"

section \<open>Construction\<close>

text \<open>
  The constructors of the weekly, monthly and yearly classes raise \<open>DnaError\<close>, each with
  a text of its own; the datatype lists these texts.
\<close>

datatype dna_error =
    MustHaveStart
  | IntervalMustBePositive int
  | DaysOfWeekRange int
  | DaysOfMonthRange int
  | DaysOfYearRange int

definition Once :: "instant \<Rightarrow> schedule" where
  "Once st = \<lparr>sType = once, start = st, sEnd = Some st, nInterval = 1, lDays = [0],
     weeks = []\<rparr>"

definition Daily :: "instant \<Rightarrow> instant option \<Rightarrow> int \<Rightarrow> schedule" where
  "Daily st en n = \<lparr>sType = daily, start = st, sEnd = en, nInterval = n, lDays = [0],
     weeks = []\<rparr>"

definition Weekly :: "int list \<Rightarrow> instant option \<Rightarrow> instant option \<Rightarrow> int \<Rightarrow> dna_error + schedule" where
  "Weekly ds st en n =
     (case st of
        None \<Rightarrow> Inl MustHaveStart
      | Some st1 \<Rightarrow>
          (case find (\<lambda>i. i < 0 \<or> 6 < i) ds of
             Some i \<Rightarrow> Inl (DaysOfWeekRange i)
           | None \<Rightarrow> Inr \<lparr>sType = weekly, start = st1, sEnd = en, nInterval = n,
                          lDays = sort ds, weeks = []\<rparr>))"

fun set_weeks :: "(int \<times> int list) list \<Rightarrow> (int \<times> int list) list \<Rightarrow> (int \<times> int list) list" where
  \<comment> \<open>\<open>for a in weeks: self.weeks[int(a)] = sorted(...)\<close>\<close>
  "set_weeks [] acc = acc"
| "set_weeks ((a, bs) # ws) acc = set_weeks ws (AList.update a (sort bs) acc)"

definition Monthly ::
  "int list \<Rightarrow> instant option \<Rightarrow> instant option \<Rightarrow> int \<Rightarrow> (int \<times> int list) list
     \<Rightarrow> dna_error + schedule" where
  "Monthly ds st en n ws =
     (case st of
        None \<Rightarrow> Inl MustHaveStart
      | Some st1 \<Rightarrow>
          if n = 0 then Inl (IntervalMustBePositive n)
          else
            (case find (\<lambda>i. i < 1 \<or> 31 < i) ds of
               Some i \<Rightarrow> Inl (DaysOfMonthRange i)
             | None \<Rightarrow> Inr \<lparr>sType = monthly, start = st1, sEnd = en, nInterval = n,
                            lDays = sort ds,
                            weeks = set_weeks ws [(1, []), (2, []), (3, []), (4, []), (5, [])]\<rparr>))"

definition Yearly :: "int list \<Rightarrow> instant option \<Rightarrow> instant option \<Rightarrow> int \<Rightarrow> dna_error + schedule" where
  "Yearly ds st en n =
     (if st = None \<or> ds = [] then Inl MustHaveStart
      else
        case st of
          None \<Rightarrow> Inl MustHaveStart
        | Some st1 \<Rightarrow>
            (case find (\<lambda>i. i < 1 \<or> 366 < i) ds of
               Some i \<Rightarrow> Inl (DaysOfYearRange i)
             | None \<Rightarrow> Inr \<lparr>sType = yearly, start = st1, sEnd = en, nInterval = n,
                            lDays = sort ds, weeks = []\<rparr>))"

subsection \<open>The factory\<close>

text \<open>
  A message of a \<open>SchedulerError\<close> is either the tuple that \<open>add_field\<close> builds (the name
  of the field, the value when it is shown, the reason) or the text of a caught error.
\<close>

datatype val = IntVal int | StrVal string

datatype msg = Field string "val option" string | Text dna_error

definition add_field :: "msg list \<Rightarrow> string \<Rightarrow> string \<Rightarrow> val option \<Rightarrow> msg list" where
  "add_field errors name reason v =
     errors @ [Field name (if v = None \<or> reason = ''empty'' \<or> reason = ''undefined''
                           then None else v) reason]"

fun check_week_days :: "int list \<Rightarrow> (msg list \<times> bool) \<Rightarrow> (msg list \<times> bool)" where
  \<comment> \<open>\<open>for b in sorted(...)\<close>, on the pair of \<open>errors\<close> and \<open>hasweeks\<close>\<close>
  "check_week_days [] st = st"
| "check_week_days (b # bs) (errors, hasweeks) =
     (if 0 \<le> b \<and> b \<le> 6 then check_week_days bs (errors, True)
      else check_week_days bs (add_field errors ''weeks'' ''invalid day'' (Some (IntVal b)), hasweeks))"

fun check_weeks :: "(int \<times> int list) list \<Rightarrow> (msg list \<times> bool) \<Rightarrow> (msg list \<times> bool)" where
  \<comment> \<open>\<open>for a in weeks\<close>; the dictionary \<open>cleanweeks\<close> that the loop fills is never read
      and is left out\<close>
  "check_weeks [] st = st"
| "check_weeks ((k, bs) # ws) (errors, hasweeks) =
     (if k \<notin> {1, 2, 3, 4, 5}
      then check_weeks ws (add_field errors ''weeks'' ''invalid week'' (Some (IntVal k)), hasweeks)
      else check_weeks ws (check_week_days (sort bs) (errors, hasweeks)))"

fun check_days :: "int \<Rightarrow> int \<Rightarrow> int list \<Rightarrow> msg list \<Rightarrow> msg list" where
  \<comment> \<open>\<open>for a in days: if a < lo or a > hi: errors.add_field('days', 'invalid day', a)\<close>\<close>
  "check_days lo hi [] errors = errors"
| "check_days lo hi (a # ds) errors =
     (if a < lo \<or> hi < a
      then check_days lo hi ds (add_field errors ''days'' ''invalid day'' (Some (IntVal a)))
      else check_days lo hi ds errors)"

definition validate_days ::
  "string \<Rightarrow> int list \<Rightarrow> (int \<times> int list) list \<Rightarrow> msg list \<Rightarrow> msg list \<times> int list" where
  \<comment> \<open>The block guarded by \<open>repeat in ('weekly', 'monthly', 'yearly') and not days\<close>; it
      returns \<open>errors\<close> and the rebound \<open>days\<close>.\<close>
  "validate_days repeat ds ws errors =
     (if (repeat = ''weekly'' \<or> repeat = ''monthly'' \<or> repeat = ''yearly'') \<and> ds = [] then
        if repeat = ''monthly'' then
          (case (if ws \<noteq> [] then check_weeks ws (errors, False) else (errors, False)) of
             (errors1, hasweeks) \<Rightarrow>
               if \<not> hasweeks \<and> ds = [] then (add_field errors1 ''days'' ''undefined'' None, ds)
               else (check_days 1 31 (sort ds) errors1, sort ds))
        else if repeat = ''weekly'' then
          (let errors1 = (if ds = [] then add_field errors ''days'' ''undefined'' None else errors)
           in (check_days 0 6 (sort ds) errors1, sort ds))
        else (errors, ds)
      else (errors, ds))"

text \<open>
  The outcome of the \<open>try\<close> block: an instance, a raised \<open>DnaError\<close>, or no usable instance
  (no class fits \<open>repeat\<close>, or the once or daily class stored a missing start; the factory
  has recorded a violation in both cases and raises).
\<close>

datatype made = Made schedule | Raised dna_error | Nothing

definition of_sum :: "dna_error + schedule \<Rightarrow> made" where
  "of_sum r = (case r of Inl e \<Rightarrow> Raised e | Inr s \<Rightarrow> Made s)"

definition construct ::
  "string \<Rightarrow> instant option \<Rightarrow> instant option \<Rightarrow> int \<Rightarrow> int list \<Rightarrow> (int \<times> int list) list \<Rightarrow> made" where
  "construct repeat st en n ds ws =
     (if repeat = ''once'' then (case st of None \<Rightarrow> Nothing | Some st1 \<Rightarrow> Made (Once st1))
      else if repeat = ''daily'' then
        (case st of None \<Rightarrow> Nothing | Some st1 \<Rightarrow> Made (Daily st1 en n))
      else if repeat = ''weekly'' then of_sum (Weekly ds st en n)
      else if repeat = ''monthly'' then of_sum (Monthly ds st en n ws)
      else if repeat = ''yearly'' then of_sum (Yearly ds st en n)
      else Nothing)"

text \<open>
  \<open>DnaError\<close> is not defined in the sources. Whether the clause \<open>except SchedulerError\<close>
  catches it depends on what it is, so the model takes the answer as the parameter
  \<open>caught\<close>. A caught error adds its text to the violations; an uncaught one leaves the
  factory at once.
\<close>

datatype failure = Errors "msg list" | Dna dna_error

definition factory ::
  "bool \<Rightarrow> instant option \<Rightarrow> instant option \<Rightarrow> string \<Rightarrow> int \<Rightarrow> int list
     \<Rightarrow> (int \<times> int list) list \<Rightarrow> failure + schedule" where
  "factory caught st en repeat n ds ws =
     (let errors1 = (if st = None then add_field [] ''start'' ''undefined'' None else []);
          errors2 = (if repeat \<notin> {''once'', ''daily'', ''weekly'', ''monthly'', ''yearly''}
                     then add_field errors1 ''repeat'' ''unknown'' (Some (StrVal repeat))
                     else errors1);
          errors3 = (if repeat \<noteq> ''once'' \<and> n = 0
                     then add_field errors2 ''interval'' ''undefined'' None else errors2)
      in case validate_days repeat ds ws errors3 of
           (errors4, ds1) \<Rightarrow>
             (case construct repeat st en n ds1 ws of
                Raised e \<Rightarrow> if caught then Inl (Errors (errors4 @ [Text e])) else Inl (Dna e)
              | Made s \<Rightarrow> if errors4 \<noteq> [] then Inl (Errors errors4) else Inr s
              | Nothing \<Rightarrow> Inl (Errors errors4)))"

section \<open>Valid schedules and their occurrences\<close>

text \<open>
  The invariants of the data model: an interval of at least 1 for the recurring kinds, a
  sorted list of days within the range of the kind, and for a monthly schedule week rules
  with keys 1 to 5 and weekdays 0 to 6, the days or the week rules not being empty. A
  one-time schedule is what its constructor builds.
\<close>

definition valid_weeks :: "(int \<times> int list) list \<Rightarrow> bool" where
  "valid_weeks wk =
     list_all (\<lambda>(k, l). 1 \<le> k \<and> k \<le> 5 \<and> list_all (\<lambda>b. 0 \<le> b \<and> b \<le> 6) l) wk"

definition has_weeks :: "(int \<times> int list) list \<Rightarrow> bool" where
  "has_weeks wk = list_ex (\<lambda>k. list_ex (\<lambda>b. in_week wk k b) [0, 1, 2, 3, 4, 5, 6]) [1, 2, 3, 4, 5]"

definition valid :: "schedule \<Rightarrow> bool" where
  "valid s =
     (case sType s of
        once \<Rightarrow> sEnd s = Some (start s) \<and> nInterval s = 1 \<and> lDays s = [0]
      | daily \<Rightarrow> 1 \<le> nInterval s \<and> lDays s = [0]
      | weekly \<Rightarrow> 1 \<le> nInterval s \<and> lDays s \<noteq> [] \<and> sorted (lDays s) \<and>
          list_all (\<lambda>d. 0 \<le> d \<and> d \<le> 6) (lDays s)
      | monthly \<Rightarrow> 1 \<le> nInterval s \<and> sorted (lDays s) \<and>
          list_all (\<lambda>d. 1 \<le> d \<and> d \<le> 31) (lDays s) \<and> weeks s \<noteq> [] \<and>
          valid_weeks (weeks s) \<and> (lDays s \<noteq> [] \<or> has_weeks (weeks s))
      | yearly \<Rightarrow> 1 \<le> nInterval s \<and> lDays s \<noteq> [] \<and> sorted (lDays s) \<and>
          list_all (\<lambda>d. 1 \<le> d \<and> d \<le> 366) (lDays s))"

text \<open>
  The occurrences of a schedule, as the data model and the glossary of the spec describe
  them: an occurrence has the time of day of the start; it lies in the first period of an
  interval of the schedule; its position in the period is one of the days of the
  schedule; and it is neither before the start nor after the end.
\<close>

definition on_grid :: "schedule \<Rightarrow> instant \<Rightarrow> bool" where
  "on_grid s x =
     (time_of x = time_of (start s) \<and>
      get_interval s x = Some (start_of_period s x) \<and>
      period_day s x \<in> set (days s x))"

definition occurrence :: "schedule \<Rightarrow> instant \<Rightarrow> bool" where
  "occurrence s x =
     (on_grid s x \<and> start s \<le> x \<and> (case sEnd s of None \<Rightarrow> True | Some e \<Rightarrow> x \<le> e))"

text \<open>
  The five kinds share one shape, which the proofs use: periods are numbered by the
  integers, \<open>S q\<close> is the day on which period \<open>q\<close> starts and \<open>p d\<close> the period of day \<open>d\<close>;
  \<open>fl n p0 P\<close> is the first period of the interval that holds period \<open>P\<close>, when intervals
  of \<open>n\<close> periods are counted from period \<open>p0\<close>; \<open>base\<close> is the position of the first day
  of a period (0 or 1).
\<close>

definition fl :: "int \<Rightarrow> int \<Rightarrow> int \<Rightarrow> int" where
  "fl n p0 P = p0 + ((P - p0) - (P - p0) mod n)"

definition periodic :: "schedule \<Rightarrow> (int \<Rightarrow> int) \<Rightarrow> (int \<Rightarrow> int) \<Rightarrow> int \<Rightarrow> bool" where
  "periodic s S p base =
     (1 \<le> nInterval s \<and>
      (\<forall>a b. a < b \<longrightarrow> S a < S b) \<and>
      (\<forall>d. S (p d) \<le> d \<and> d < S (p d + 1)) \<and>
      (\<forall>ts. start_of_period s ts = combine (S (p (date_of ts))) 0) \<and>
      (\<forall>ts. period_day s ts = date_of ts - S (p (date_of ts)) + base) \<and>
      (\<forall>d. offset s d = d - base) \<and>
      (\<forall>ts. get_interval s ts =
         Some (combine (S (fl (nInterval s) (p (date_of (start s))) (p (date_of ts)))) 0)) \<and>
      (\<forall>ts. next_interval s ts =
         Some (combine (S (fl (nInterval s) (p (date_of (start s))) (p (date_of ts))
                 + nInterval s)) 0)) \<and>
      (\<forall>ts. last_interval s ts =
         Some (combine (S (fl (nInterval s) (p (date_of (start s))) (p (date_of ts))
                 - nInterval s)) 0)))"

section \<open>Instants\<close>

lemma time_of_range: "0 \<le> time_of x" "time_of x < 86400"
  by (simp_all add: time_of_def)

lemma combine_date_time: "combine (date_of x) (time_of x) = x"
  by (simp add: combine_def date_of_def time_of_def)

lemma date_of_combine: "0 \<le> t \<Longrightarrow> t < 86400 \<Longrightarrow> date_of (combine d t) = d"
  by (simp add: combine_def date_of_def)

lemma time_of_combine: "0 \<le> t \<Longrightarrow> t < 86400 \<Longrightarrow> time_of (combine d t) = t"
  by (simp add: combine_def time_of_def)

lemma succ_cases:
  "(time_of (x + 1) \<le> time_of x \<and> date_of (x + 1) = date_of x + 1) \<or>
   (time_of x < time_of (x + 1) \<and> date_of (x + 1) = date_of x)"
proof (cases "time_of x + 1 < 86400")
  case True
  have "x + 1 = combine (date_of x) (time_of x + 1)"
    using combine_date_time[of x] by (simp add: combine_def)
  then have "date_of (x + 1) = date_of x" "time_of (x + 1) = time_of x + 1"
    using True time_of_range(1)[of x] by (simp_all add: date_of_combine time_of_combine)
  then show ?thesis by simp
next
  case False
  then have t: "time_of x = 86399" using time_of_range(2)[of x] by linarith
  have "x + 1 = combine (date_of x + 1) 0"
    using combine_date_time[of x] t by (simp add: combine_def)
  then have "date_of (x + 1) = date_of x + 1" "time_of (x + 1) = 0"
    by (simp_all add: date_of_combine time_of_combine)
  then show ?thesis using t by simp
qed

section \<open>One-time schedules\<close>

lemma Once_prev_step_day:
  "prev_step_day (Once st) ts =
     Inr (if time_of ts \<le> time_of st then combine (date_of ts - 1) 0 else combine (date_of ts) 0)"
  by (simp add: prev_step_day_def Once_def get_interval_def last_interval_def start_of_period_def
      period_day_def days_def offset_def truncate_def delta_nDays_def combine_def Let_def)

lemma Once_next_step_day:
  "next_step_day (Once st) ts =
     Inr (if time_of st \<le> time_of ts then combine (date_of ts + 1) 0 else combine (date_of ts) 0)"
  by (simp add: next_step_day_def Once_def get_interval_def next_interval_def start_of_period_def
      period_day_def days_def offset_def truncate_def delta_nDays_def combine_def Let_def)

lemma Once_last: "last_step (Once st) = Some (Inr (Some st))"
proof -
  have e: "sEnd (Once st) = Some st" "start (Once st) = st" by (simp_all add: Once_def)
  have c: "combine (date_of (if time_of (st + 1) \<le> time_of st then combine (date_of (st + 1) - 1) 0
          else combine (date_of (st + 1)) 0)) (time_of st) = st"
  proof (cases "time_of (st + 1) \<le> time_of st")
    case True
    then have "date_of (st + 1) = date_of st + 1" using succ_cases[of st] by linarith
    with True show ?thesis by (simp add: date_of_combine combine_date_time)
  next
    case False
    then have "date_of (st + 1) = date_of st" using succ_cases[of st] by linarith
    with False show ?thesis by (simp add: date_of_combine combine_date_time)
  qed
  have "prev_step (Once st) (st + 1) = Some (Inr (Some st))"
    by (subst prev_step.simps) (simp only: Once_prev_step_day e c sum.case Let_def, simp)
  then show ?thesis
    by (simp add: last_step_def e delta_nSecs_def)
qed

lemma Once_next: assumes "st \<le> ts" shows "next_step (Once st) ts = Some (Inr None)"
proof -
  have e: "sEnd (Once st) = Some st" "start (Once st) = st" by (simp_all add: Once_def)
  define c where "c = combine (date_of (if time_of st \<le> time_of ts then combine (date_of ts + 1) 0
          else combine (date_of ts) 0)) (time_of st)"
  have "st < c"
  proof (cases "time_of st \<le> time_of ts")
    case True
    then have "c = combine (date_of ts + 1) (time_of st)"
      by (simp add: c_def date_of_combine)
    then show ?thesis
      using combine_date_time[of ts] assms time_of_range[of st] time_of_range[of ts]
      by (simp add: combine_def)
  next
    case False
    then have "c = combine (date_of ts) (time_of st)"
      by (simp add: c_def date_of_combine)
    then show ?thesis
      using combine_date_time[of ts] assms False
      by (simp add: combine_def)
  qed
  then show ?thesis
    by (subst next_step.simps) (simp only: Once_next_step_day e sum.case Let_def c_def[symmetric], simp)
qed

text \<open>
  Claim C10. The constructor of a one-time schedule sets the end of the schedule to its
  start, the scheduled instant. As a consequence \<open>last_step\<close> returns the scheduled instant
  and not the absence of a value, and \<open>next_step\<close> returns the absence of a value for
  every reference instant at or after the scheduled instant.
\<close>

theorem Once_end_is_start:
  "sEnd (Once st) = Some st \<and>
   last_step (Once st) = Some (Inr (Some st)) \<and>
   (\<forall>ts. st \<le> ts \<longrightarrow> next_step (Once st) ts = Some (Inr None))"
  using Once_last Once_next by (simp add: Once_def)

theorem Once_end_is_start_witness:
  "sEnd (Once (date 2011 1 2 0 0 0)) = Some (date 2011 1 2 0 0 0) \<and>
   last_step (Once (date 2011 1 2 0 0 0)) = Some (Inr (Some (date 2011 1 2 0 0 0))) \<and>
   date 2011 1 2 0 0 0 \<le> date 2011 1 5 13 30 0 \<and>
   next_step (Once (date 2011 1 2 0 0 0)) (date 2011 1 5 13 30 0) = Some (Inr None)"
proof -
  have le: "date 2011 1 2 0 0 0 \<le> date 2011 1 5 13 30 0"
    by (simp add: date_def combine_def ymd2ord_def days_before_month_def)
  show ?thesis
    using Once_end_is_start [of "date 2011 1 2 0 0 0"] le by blast
qed

section \<open>The factory\<close>

text \<open>
  Claim C9 says that the factory rejects every interval below 1 for the recurring kinds.
  The factory tests \<open>not interval\<close>, which holds for 0 only, although the text of the
  error of the monthly constructor reads "Interval must be > 0 for recurring schedules".
  A daily schedule with interval \<open>-1\<close> is built and returned.
\<close>

theorem factory_accepts_negative_interval:
  "factory caught (Some (date 2011 1 1 0 0 0)) None ''daily'' (- 1) [] [] =
     Inr (Daily (date 2011 1 1 0 0 0) None (- 1)) \<and>
   nInterval (Daily (date 2011 1 1 0 0 0) None (- 1)) < 1"
  by (simp add: factory_def validate_days_def construct_def Daily_def)

text \<open>
  Claim C8 says that the factory reports every violation of a request at once. The range
  checks of the days are inside the block guarded by \<open>not days\<close>, where the list of days is
  empty, so a day out of range is never recorded there. With a missing start and the day
  9 for a weekly schedule the only other check is the one of the constructor, which stops
  at the missing start: the day is not reported, whether the error of the constructor is
  caught or not. With a start and a missing interval, the error of the constructor names
  the day in a text and, when it is not caught, replaces the recorded violation.
\<close>

theorem factory_skips_day_range_check:
  "factory caught None None ''weekly'' 1 [9] [] =
     (if caught then Inl (Errors [Field ''start'' None ''undefined'', Text MustHaveStart])
      else Inl (Dna MustHaveStart)) \<and>
   factory caught (Some (date 2011 1 1 0 0 0)) None ''weekly'' 0 [9] [] =
     (if caught then Inl (Errors [Field ''interval'' None ''undefined'', Text (DaysOfWeekRange 9)])
      else Inl (Dna (DaysOfWeekRange 9)))"
  by (simp add: factory_def validate_days_def construct_def Weekly_def of_sum_def add_field_def)

section \<open>The days of a monthly schedule\<close>

lemma not5: "(x \<noteq> (5::int) \<and> x = 5 \<and> P) = False"
  by blast

lemma days_loop_step:
  assumes "\<not> mdays < day" and wk: "\<And>k d. in_week wk k d = (k = 5 \<and> d = w)"
  shows "days_loop wk sdow mdays day dow week acc =
      days_loop wk sdow mdays (day + 1) (if dow = 6 then 0 else dow + 1)
        (if dow = sdow then week + 1 else week)
        (if mdays - 6 \<le> day \<and> dow = w then List.insert day acc else acc)"
  apply (subst days_loop.simps)
  apply (simp only: assms if_False Let_def not5 simp_thms)
  done

lemma days_loop_stop: "mdays < day \<Longrightarrow> days_loop wk sdow mdays day dow week acc = acc"
  by (subst days_loop.simps) (simp only: if_True)

lemma range_empty: "mdays < day \<Longrightarrow> {d::int. day \<le> d \<and> d \<le> mdays \<and> Q d} = {}"
  by auto

lemma range_split:
  assumes "\<not> mdays < (day::int)"
  shows "{d. day \<le> d \<and> d \<le> mdays \<and> Q d} =
     (if Q day then {day} else {}) \<union> {d. day + 1 \<le> d \<and> d \<le> mdays \<and> Q d}"
proof -
  have le: "day \<le> d \<longleftrightarrow> d = day \<or> day + 1 \<le> d" for d by linarith
  show ?thesis using assms by (auto simp: le)
qed


lemma mod7_shift: "(d - (day + 1)) mod 7 = (6 + (d - day)) mod (7::int)"
proof -
  have "d - (day + 1) = (6 + (d - day)) - 7" by simp
  then show ?thesis by (simp only: minus_mod_self2)
qed

lemma dow_next:
  "((if dow = 6 then 0 else dow + 1) + (d - (day + 1))) mod 7 = (dow + (d - day)) mod (7::int)"
proof (cases "dow = 6")
  case True
  then show ?thesis using mod7_shift[of d day] by simp
next
  case False
  have "dow + 1 + (d - (day + 1)) = dow + (d - day)" by simp
  then show ?thesis using False by simp
qed


lemma small_mod: "0 \<le> dow \<Longrightarrow> dow \<le> 6 \<Longrightarrow> (dow + (day - day)) mod 7 = (dow::int)"
  by simp

lemma days_loop_last:
  assumes wk: "\<And>k d. in_week wk k d = (k = 5 \<and> d = w)"
  shows "0 \<le> dow \<Longrightarrow> dow \<le> 6 \<Longrightarrow> set (days_loop wk sdow mdays day dow week acc) =
      set acc \<union> {d. day \<le> d \<and> d \<le> mdays \<and> (mdays - 6 \<le> d \<and> (dow + (d - day)) mod 7 = w)}"
proof (induction "nat (mdays + 1 - day)" arbitrary: day dow week acc)
  case 0
  then have lt: "mdays < day" by simp
  show ?case by (simp only: days_loop_stop[OF lt] range_empty[OF lt] Un_empty_right)
next
  case (Suc k)
  from Suc(2) have False: "\<not> mdays < day" by simp
  define week1 where "week1 = (if dow = sdow then week + 1 else week)"
  define acc2 where "acc2 = (if mdays - 6 \<le> day \<and> dow = w then List.insert day acc else acc)"
  define dow1 where "dow1 = (if dow = 6 then 0 else dow + 1)"
  define P where "P d = (mdays - 6 \<le> d \<and> (dow + (d - day)) mod 7 = w)" for d
  have d1: "0 \<le> dow1" "dow1 \<le> 6"
    unfolding dow1_def using Suc(3,4) by simp_all
  have d2: "(mdays - 6 \<le> d \<and> (dow1 + (d - (day + 1))) mod 7 = w) = P d" for d
    unfolding dow1_def P_def dow_next ..
  have step: "days_loop wk sdow mdays day dow week acc =
      days_loop wk sdow mdays (day + 1) dow1 week1 acc2"
    unfolding dow1_def week1_def acc2_def by (rule days_loop_step[OF False wk])
  from Suc(2) have k: "k = nat (mdays + 1 - (day + 1))" by simp
  have IH: "set (days_loop wk sdow mdays (day + 1) dow1 week1 acc2) =
      set acc2 \<union> {d. day + 1 \<le> d \<and> d \<le> mdays \<and> P d}"
    using Suc(1)[OF k d1, where week=week1 and acc=acc2] unfolding d2 .
  have dw: "P day = (mdays - 6 \<le> day \<and> dow = w)"
    unfolding P_def small_mod[OF Suc(3,4)] ..
  have a2: "set acc2 = set acc \<union> (if P day then {day} else {})"
    unfolding acc2_def dw by simp
  have "set (days_loop wk sdow mdays day dow week acc) =
     set acc \<union> {d. day \<le> d \<and> d \<le> mdays \<and> P d}"
    unfolding step IH a2 range_split[OF False, of P] by (simp only: Un_assoc)
  then show ?case unfolding P_def .
qed


lemma days_loop_distinct:
  "distinct acc \<Longrightarrow> distinct (days_loop wk sdow mdays day dow week acc)"
proof (induction "nat (mdays + 1 - day)" arbitrary: day dow week acc)
  case 0
  then have "mdays < day" by simp
  then show ?case using 0 by (simp only: days_loop_stop)
next
  case (Suc k)
  from Suc(2) have False: "\<not> mdays < day" by simp
  from Suc(2) have k: "k = nat (mdays + 1 - (day + 1))" by simp
  have IH: "distinct a \<Longrightarrow> distinct (days_loop wk sdow mdays (day + 1) dw we a)" for dw we a
    using Suc(1)[OF k] .
  have ins: "distinct a \<Longrightarrow> distinct (if c then List.insert day a else a)" for a c
    by simp
  show ?case
    apply (subst days_loop.simps)
    apply (simp only: False if_False Let_def)
    apply (rule IH)
    apply (rule ins)
    apply (rule ins)
    apply (rule Suc(3))
    done
qed



lemma mod7_unique:
  assumes "a mod 7 = b mod (7::int)" "a - b < 7" "b - a < 7"
  shows "a = b"
proof -
  from assms(1) have "7 dvd a - b" by (simp add: mod_eq_dvd_iff)
  then obtain k where k: "a - b = 7 * k" ..
  with assms(2,3) have "k < 1" "-1 < k" by simp_all
  then have "k = 0" by simp
  with k show ?thesis by simp
qed

lemma hit:
  assumes w: "0 \<le> (w::int)" "w \<le> 6"
  shows "(sdow + ((mdays - (mdays - 1 + sdow - w) mod 7) - 1)) mod 7 = w"
proof -
  define X where "X = mdays - 1 + sdow - w"
  have "7 * (X div 7) + X mod 7 = X" by simp
  then have "sdow + ((mdays - X mod 7) - 1) = w + 7 * (X div 7)"
    unfolding X_def by linarith
  then have "(sdow + ((mdays - X mod 7) - 1)) mod 7 = w mod 7"
    by (simp only: mod_mult_self2)
  then show ?thesis using w unfolding X_def by simp
qed

lemma last_week_unique:
  assumes w: "0 \<le> (w::int)" "w \<le> 6" and m: "7 \<le> (mdays::int)"
  shows "{d::int. 1 \<le> d \<and> d \<le> mdays \<and> (mdays - 6 \<le> d \<and> (sdow + (d - 1)) mod 7 = w)} =
     {mdays - (mdays - 1 + sdow - w) mod 7}"
proof -
  define r where "r = (mdays - 1 + sdow - w) mod 7"
  define d0 where "d0 = mdays - r"
  have r: "0 \<le> r" "r < 7" unfolding r_def by simp_all
  have h: "(sdow + (d0 - 1)) mod 7 = w"
    unfolding d0_def r_def by (rule hit[OF w])
  have d0: "1 \<le> d0" "d0 \<le> mdays" "mdays - 6 \<le> d0"
    unfolding d0_def using r m by simp_all
  have uniq: "d = d0" if "mdays - 6 \<le> d" "d \<le> mdays" "(sdow + (d - 1)) mod 7 = w" for d
  proof -
    have e: "(sdow + (d - 1)) mod 7 = (sdow + (d0 - 1)) mod 7" using that(3) h by simp
    have "sdow + (d - 1) = sdow + (d0 - 1)"
    proof (rule mod7_unique[OF e])
      show "sdow + (d - 1) - (sdow + (d0 - 1)) < 7" using that(2) r unfolding d0_def by simp
      show "sdow + (d0 - 1) - (sdow + (d - 1)) < 7" using that(1) r unfolding d0_def by simp
    qed
    then show ?thesis by simp
  qed
  have "{d::int. 1 \<le> d \<and> d \<le> mdays \<and> (mdays - 6 \<le> d \<and> (sdow + (d - 1)) mod 7 = w)} = {d0}"
  proof (rule set_eqI)
    fix d
    show "d \<in> {d. 1 \<le> d \<and> d \<le> mdays \<and> (mdays - 6 \<le> d \<and> (sdow + (d - 1)) mod 7 = w)} \<longleftrightarrow> d \<in> {d0}"
    proof
      assume "d \<in> {d. 1 \<le> d \<and> d \<le> mdays \<and> (mdays - 6 \<le> d \<and> (sdow + (d - 1)) mod 7 = w)}"
      then have "mdays - 6 \<le> d" "d \<le> mdays" "(sdow + (d - 1)) mod 7 = w" by blast+
      then have "d = d0" by (rule uniq)
      then show "d \<in> {d0}" by simp
    next
      assume "d \<in> {d0}"
      then have "d = d0" by simp
      with d0 h show "d \<in> {d. 1 \<le> d \<and> d \<le> mdays \<and> (mdays - 6 \<le> d \<and> (sdow + (d - 1)) mod 7 = w)}"
        by blast
    qed
  qed
  then show ?thesis unfolding d0_def r_def .
qed

lemma weekday_in_month:
  "(weekday1 + (d - 1)) mod 7 = (B + d + 6) mod (7::int)" if "weekday1 = (B + 1 + 6) mod 7"
proof -
  have "((B + 7) mod 7 + (d - 1)) mod 7 = (B + 7 + (d - 1)) mod 7"
    by (rule mod_add_left_eq)
  moreover have "B + 7 + (d - 1) = B + d + 6" by simp
  moreover have "B + 1 + 6 = B + 7" by simp
  ultimately show ?thesis using that by simp
qed

lemma single_list: "distinct xs \<Longrightarrow> set xs = {a} \<Longrightarrow> xs = [a]"
proof (cases xs)
  case Nil
  assume "set xs = {a}" with Nil show ?thesis by simp
next
  case (Cons x ys)
  assume d: "distinct xs" and s: "set xs = {a}"
  from s Cons have x: "x = a" by auto
  from s Cons have "set ys \<subseteq> {a}" by auto
  moreover from d Cons x have "a \<notin> set ys" by simp
  ultimately have "ys = []" by (cases ys) auto
  with Cons x show ?thesis by simp
qed


lemma in_week_last:
  "in_week [(1, []), (2, []), (3, []), (4, []), (5, [w])] k d = (k = 5 \<and> d = w)"
  by (simp add: in_week_def)

lemma Monthly_last:
  "n \<noteq> 0 \<Longrightarrow> Monthly [] (Some st) en n [(5, [w])] =
     Inr \<lparr>sType = monthly, start = st, sEnd = en, nInterval = n, lDays = [],
          weeks = [(1, []), (2, []), (3, []), (4, []), (5, [w])]\<rparr>"
  by (simp add: Monthly_def)

lemma weekday_range: "0 \<le> weekday d" "weekday d \<le> 6"
  by (simp_all add: weekday_def)

lemma days_in_month_range: "28 \<le> days_in_month y m" "days_in_month y m \<le> 31"
  by (simp_all add: days_in_month_def leap_day_def)

lemma days_last:
  assumes w: "0 \<le> w" "w \<le> 6"
    and s: "sType s = monthly" "lDays s = []"
      "weeks s = [(1, []), (2, []), (3, []), (4, []), (5, [w])]"
    and sdow: "sdow = weekday (ymd2ord (year_of ts) (month_of ts) 1)"
    and mdays: "mdays = days_in_month (year_of ts) (month_of ts)"
  shows "days s ts = [mdays - (mdays - 1 + sdow - w) mod 7]"
proof -
  let ?l = "days_loop (weeks s) sdow mdays 1 sdow 0 []"
  have r: "0 \<le> sdow" "sdow \<le> 6" unfolding sdow by (rule weekday_range)+
  have m: "7 \<le> mdays" using days_in_month_range(1)[of "year_of ts" "month_of ts"] mdays by simp
  have "set ?l = set [] \<union> {d. 1 \<le> d \<and> d \<le> mdays \<and> (mdays - 6 \<le> d \<and> (sdow + (d - 1)) mod 7 = w)}"
    unfolding s(3) by (rule days_loop_last[OF in_week_last r])
  then have "set ?l = {mdays - (mdays - 1 + sdow - w) mod 7}"
    unfolding last_week_unique[OF w m] by simp
  moreover have "distinct ?l" by (rule days_loop_distinct) simp
  ultimately have "?l = [mdays - (mdays - 1 + sdow - w) mod 7]" by (rule single_list[rotated])
  then show ?thesis
    by (simp add: days_def Monthly_days_def monthrange_def s sdow[symmetric] mdays[symmetric])
qed

text \<open>
  Claim C7. For a monthly schedule built with no explicit days and the week rule
  \<open>{5: [w]}\<close>, \<open>w\<close> a weekday, and for every reference instant, whatever the length of
  its month (28 to 31 days), \<open>days\<close> returns exactly one day, that day is one of the
  last seven days of the month, and it falls on the weekday \<open>w\<close>.
\<close>

theorem Monthly_days_last_weekday:
  assumes "0 \<le> w" "w \<le> 6" "n \<noteq> 0"
  shows "\<exists>s. Monthly [] (Some st) en n [(5, [w])] = Inr s \<and>
     (\<forall>ts. \<exists>d. days s ts = [d] \<and>
        28 \<le> days_in_month (year_of ts) (month_of ts) \<and>
        days_in_month (year_of ts) (month_of ts) \<le> 31 \<and>
        days_in_month (year_of ts) (month_of ts) - 6 \<le> d \<and>
        d \<le> days_in_month (year_of ts) (month_of ts) \<and>
        weekday (ymd2ord (year_of ts) (month_of ts) d) = w)"
proof -
  let ?s = "\<lparr>sType = monthly, start = st, sEnd = en, nInterval = n, lDays = [],
          weeks = [(1, []), (2, []), (3, []), (4, []), (5, [w])]\<rparr>"
  have "\<exists>d. days ?s ts = [d] \<and>
        28 \<le> days_in_month (year_of ts) (month_of ts) \<and>
        days_in_month (year_of ts) (month_of ts) \<le> 31 \<and>
        days_in_month (year_of ts) (month_of ts) - 6 \<le> d \<and>
        d \<le> days_in_month (year_of ts) (month_of ts) \<and>
        weekday (ymd2ord (year_of ts) (month_of ts) d) = w" for ts
  proof -
    define mdays where "mdays = days_in_month (year_of ts) (month_of ts)"
    define B where "B = days_before_year (year_of ts) + days_before_month (year_of ts) (month_of ts)"
    define sdow where "sdow = weekday (ymd2ord (year_of ts) (month_of ts) 1)"
    define r where "r = (mdays - 1 + sdow - w) mod 7"
    have d: "days ?s ts = [mdays - r]"
      unfolding r_def by (rule days_last[OF assms(1,2) _ _ _ sdow_def mdays_def]) simp_all
    have r: "0 \<le> r" "r < 7" unfolding r_def by simp_all
    have s1: "sdow = (B + 1 + 6) mod 7"
      unfolding sdow_def weekday_def ymd2ord_def B_def by simp
    have "weekday (ymd2ord (year_of ts) (month_of ts) (mdays - r)) = (B + (mdays - r) + 6) mod 7"
      unfolding weekday_def ymd2ord_def B_def by simp
    also have "\<dots> = (sdow + ((mdays - r) - 1)) mod 7"
      by (rule weekday_in_month[OF s1, symmetric])
    also have "\<dots> = w" unfolding r_def by (rule hit[OF assms(1,2)])
    finally have wd: "weekday (ymd2ord (year_of ts) (month_of ts) (mdays - r)) = w" .
    have rng: "28 \<le> mdays" "mdays \<le> 31" unfolding mdays_def by (rule days_in_month_range)+
    have b: "mdays - 6 \<le> mdays - r" "mdays - r \<le> mdays" using r by simp_all
    show ?thesis
      unfolding mdays_def[symmetric] using d wd rng b by blast
  qed
  then show ?thesis using Monthly_last[OF assms(3), of st en w] by blast
qed

theorem Monthly_days_last_weekday_witness:
  "(0::int) \<le> 4 \<and> (4::int) \<le> 6 \<and> (1::int) \<noteq> 0 \<and>
   (\<exists>s. Monthly [] (Some (date 2014 2 1 0 0 0)) None 1 [(5, [4])] = Inr s \<and>
     (\<forall>ts. \<exists>d. days s ts = [d] \<and>
        28 \<le> days_in_month (year_of ts) (month_of ts) \<and>
        days_in_month (year_of ts) (month_of ts) \<le> 31 \<and>
        days_in_month (year_of ts) (month_of ts) - 6 \<le> d \<and>
        d \<le> days_in_month (year_of ts) (month_of ts) \<and>
        weekday (ymd2ord (year_of ts) (month_of ts) d) = 4))"
  using Monthly_days_last_weekday [of 4 1 "date 2014 2 1 0 0 0" None] by simp

section \<open>Periods and intervals\<close>

lemma fl_le: "1 \<le> n \<Longrightarrow> fl n p0 P \<le> P"
proof -
  assume "1 \<le> n"
  then have "0 \<le> (P - p0) mod n" by simp
  then show ?thesis unfolding fl_def by simp
qed

lemma fl_gt: "1 \<le> n \<Longrightarrow> P < fl n p0 P + n"
proof -
  assume "1 \<le> n"
  then have "(P - p0) mod n < n" by simp
  then show ?thesis unfolding fl_def by simp
qed

lemma fl_aligned: "(fl n p0 P - p0) mod n = 0"
proof -
  have "fl n p0 P - p0 = (P - p0) - (P - p0) mod n" unfolding fl_def by simp
  also have "\<dots> = n * ((P - p0) div n)" by (simp add: minus_mod_eq_mult_div)
  finally show ?thesis by simp
qed

lemma fl_fix: "(q - p0) mod n = 0 \<Longrightarrow> fl n p0 q = q"
  unfolding fl_def by simp

lemma fl_fix_iff: "1 \<le> n \<Longrightarrow> (fl n p0 q = q) = ((q - p0) mod n = 0)"
  using fl_aligned[of n p0 q] fl_fix[of q p0 n] by auto

lemma aligned_gap:
  assumes n: "1 \<le> n" and a: "(q - p0) mod n = 0" "(r - p0) mod n = 0" and lt: "q < (r::int)"
  shows "q + n \<le> r"
proof -
  from a have "n dvd (q - p0)" "n dvd (r - p0)" by (simp_all add: dvd_eq_mod_eq_0)
  then have "n dvd (r - p0) - (q - p0)" by (rule dvd_diff[rotated])
  then have "n dvd r - q" by simp
  moreover from lt have "0 < r - q" by simp
  ultimately have "n \<le> r - q" by (rule zdvd_imp_le)
  then show ?thesis by simp
qed

lemma aligned_shift:
  assumes a: "(q - p0) mod n = (0::int)"
  shows "(q + n - p0) mod n = 0" "(q - n - p0) mod n = 0"
proof -
  have e: "q + n - p0 = (q - p0) + n" "q - n - p0 = (q - p0) - n" by simp_all
  show "(q + n - p0) mod n = 0" by (simp only: e mod_add_self2 a)
  show "(q - n - p0) mod n = 0" by (simp only: e minus_mod_self2 a)
qed

lemma fl_greatest:
  assumes n: "1 \<le> n" and a: "(q - p0) mod n = 0" and le: "q \<le> P"
  shows "q \<le> fl n p0 P"
proof (rule ccontr)
  assume "\<not> q \<le> fl n p0 P"
  then have "fl n p0 P < q" by simp
  from aligned_gap[OF n fl_aligned a this] have "fl n p0 P + n \<le> q" .
  with fl_gt[OF n, of P p0] le show False by simp
qed

lemma fl_next:
  assumes n: "1 \<le> n" and a: "(q - p0) mod n = 0" and lt: "fl n p0 P < q"
  shows "fl n p0 P + n \<le> q"
  by (rule aligned_gap[OF n fl_aligned a lt])

lemma fl_prev:
  assumes n: "1 \<le> n" and a: "(q - p0) mod n = 0" and lt: "q < fl n p0 P"
  shows "q \<le> fl n p0 P - n"
  using aligned_gap[OF n a fl_aligned lt] by simp

lemma combine_less_iff:
  assumes "0 \<le> t" "t < 86400" "0 \<le> u" "u < 86400"
  shows "(combine a t < combine b u) = (a < b \<or> (a = b \<and> t < u))"
proof (cases "a < b")
  case True
  then have "a + 1 \<le> b" by simp
  then have "(a + 1) * 86400 \<le> b * 86400" by simp
  then show ?thesis using True assms unfolding combine_def by (simp add: algebra_simps)
next
  case False
  show ?thesis
  proof (cases "a = b")
    case True
    then show ?thesis unfolding combine_def by simp
  next
    case F2: False
    with False have "b + 1 \<le> a" by simp
    then have "(b + 1) * 86400 \<le> a * 86400" by simp
    then show ?thesis using False F2 assms unfolding combine_def by (simp add: algebra_simps)
  qed
qed

lemma less_combine_iff:
  assumes "0 \<le> u" "u < 86400"
  shows "(ts < combine b u) = (date_of ts < b \<or> (date_of ts = b \<and> time_of ts < u))"
  using combine_less_iff[OF time_of_range(1)[of ts] time_of_range(2)[of ts] assms, where a="date_of ts" and b=b]
  by (simp add: combine_date_time)

lemma combine_less_iff2:
  assumes "0 \<le> u" "u < 86400"
  shows "(combine b u < ts) = (b < date_of ts \<or> (b = date_of ts \<and> u < time_of ts))"
  using combine_less_iff[OF assms time_of_range(1)[of ts] time_of_range(2)[of ts], where b="date_of ts" and a=b]
  by (simp add: combine_date_time)

lemma combine_le_iff:
  assumes "0 \<le> t" "t < 86400" "0 \<le> u" "u < 86400"
  shows "(combine a t \<le> combine b u) = (a < b \<or> (a = b \<and> t \<le> u))"
  using combine_less_iff[OF assms(3,4,1,2), of b a] by auto

lemma first_ge_mem: "ds \<noteq> [] \<Longrightarrow> \<exists>d. first_ge t ds = Some d \<and> d \<in> set ds"
  by (induction t ds rule: first_ge.induct) auto

lemma first_ge_ge: "t \<le> last ds \<Longrightarrow> first_ge t ds = Some d \<Longrightarrow> t \<le> d"
  by (induction t ds rule: first_ge.induct) (auto split: if_splits)

lemma first_ge_least:
  "sorted ds \<Longrightarrow> first_ge t ds = Some d \<Longrightarrow> e \<in> set ds \<Longrightarrow> t \<le> e \<Longrightarrow> d \<le> e"
  by (induction t ds rule: first_ge.induct) (auto split: if_splits)

lemma first_le_mem: "ds \<noteq> [] \<Longrightarrow> \<exists>d. first_le t ds = Some d \<and> d \<in> set ds"
  by (induction t ds rule: first_le.induct) auto

lemma first_le_le: "last ds \<le> t \<Longrightarrow> first_le t ds = Some d \<Longrightarrow> d \<le> t"
  by (induction t ds rule: first_le.induct) (auto split: if_splits)

lemma first_le_greatest:
  "sorted (rev ds) \<Longrightarrow> first_le t ds = Some d \<Longrightarrow> e \<in> set ds \<Longrightarrow> e \<le> t \<Longrightarrow> e \<le> d"
  by (induction t ds rule: first_le.induct) (auto split: if_splits simp: sorted_append)

section \<open>The search for a step day\<close>

lemma periodicD:
  assumes "periodic s S p base"
  shows "1 \<le> nInterval s"
    and "a < b \<Longrightarrow> S a < S b"
    and "S (p d) \<le> d" and "d < S (p d + 1)"
    and "start_of_period s ts = combine (S (p (date_of ts))) 0"
    and "period_day s ts = date_of ts - S (p (date_of ts)) + base"
    and "offset s e = e - base"
    and "get_interval s ts =
         Some (combine (S (fl (nInterval s) (p (date_of (start s))) (p (date_of ts)))) 0)"
    and "next_interval s ts =
         Some (combine (S (fl (nInterval s) (p (date_of (start s))) (p (date_of ts))
                 + nInterval s)) 0)"
    and "last_interval s ts =
         Some (combine (S (fl (nInterval s) (p (date_of (start s))) (p (date_of ts))
                 - nInterval s)) 0)"
  using assms unfolding periodic_def by blast+

lemma S_le: assumes "periodic s S p base" "a \<le> b" shows "S a \<le> S b"
proof (cases "a = b")
  case True then show ?thesis by simp
next
  case False
  with assms(2) have "a < b" by simp
  from periodicD(2)[OF assms(1) this] show ?thesis by simp
qed

lemma S_less_iff: assumes "periodic s S p base" shows "(S a < S b) = (a < b)"
proof
  assume l: "S a < S b"
  show "a < b"
  proof (rule ccontr)
    assume "\<not> a < b"
    then have "b \<le> a" by simp
    from S_le[OF assms this] l show False by simp
  qed
next
  assume "a < b" then show "S a < S b" by (rule periodicD(2)[OF assms])
qed

lemma p_unique:
  assumes per: "periodic s S p base" and "S q \<le> d" "d < S (q + 1)"
  shows "p d = q"
proof (rule ccontr)
  assume ne: "p d \<noteq> q"
  show False
  proof (cases "p d < q")
    case True
    then have "p d + 1 \<le> q" by simp
    from S_le[OF per this] assms(2) periodicD(4)[OF per, of d] show False by simp
  next
    case False
    with ne have "q + 1 \<le> p d" by simp
    from S_le[OF per this] assms(3) periodicD(3)[OF per, of d] show False by simp
  qed
qed

lemma delta_nDays_combine: "delta_nDays (combine X 0) k = combine (X + k) 0"
  by (simp add: delta_nDays_def combine_def algebra_simps)

lemma combine_zero_less: "(combine a 0 < combine b 0) = (a < b)"
  by (simp add: combine_def)

lemma sorted_hd_le: "sorted ds \<Longrightarrow> e \<in> set ds \<Longrightarrow> hd ds \<le> (e::int)"
  by (cases ds) auto

lemma sorted_le_last: "sorted ds \<Longrightarrow> e \<in> set ds \<Longrightarrow> e \<le> (last ds::int)"
  by (induction ds) (auto split: if_splits)

lemma next_step_day_periodic:
  assumes per: "periodic s S p base" and ne: "days s ts \<noteq> []" and so: "sorted (days s ts)"
  defines "P \<equiv> p (date_of ts)"
  defines "g \<equiv> fl (nInterval s) (p (date_of (start s))) P"
  defines "ts_day \<equiv> (if time_of (start s) \<le> time_of ts
                        then date_of ts - S (p (date_of ts)) + base + 1
                        else date_of ts - S (p (date_of ts)) + base)"
  shows "((g < P \<or> last (days s ts) < ts_day) \<and>
          next_step_day s ts = Inr (combine (S (g + nInterval s) + (hd (days s ts) - base)) 0)) \<or>
         (g = P \<and> (\<exists>d \<in> set (days s ts). ts_day \<le> d \<and>
             (\<forall>e \<in> set (days s ts). ts_day \<le> e \<longrightarrow> d \<le> e) \<and>
             next_step_day s ts = Inr (combine (S g + (d - base)) 0)))"
proof -
  let ?ds = "days s ts"
  have gle: "g \<le> P" unfolding g_def P_def by (rule fl_le[OF periodicD(1)[OF per]])
  have td: "ts_day = (if time_of (start s) \<le> time_of ts then period_day s ts + 1 else period_day s ts)"
    unfolding ts_day_def periodicD(6)[OF per] by simp
  have lt: "(combine (S g) 0 < combine (S P) 0) = (g < P)"
    unfolding combine_zero_less by (rule S_less_iff[OF per])
  have unf: "next_step_day s ts =
     (if g < P then Inr (combine (S (g + nInterval s) + (hd ?ds - base)) 0)
      else if last ?ds < ts_day then Inr (combine (S (g + nInterval s) + (hd ?ds - base)) 0)
      else if ts_day \<le> hd ?ds then Inr (combine (S g + (hd ?ds - base)) 0)
      else (case first_ge ts_day ?ds of None \<Rightarrow> Inl UnboundLocalError
            | Some d \<Rightarrow> Inr (combine (S g + (d - base)) 0)))"
    unfolding next_step_day_def periodicD(8)[OF per] periodicD(9)[OF per] periodicD(5)[OF per]
      periodicD(7)[OF per] option.case Let_def td[symmetric] g_def[symmetric] P_def[symmetric]
      lt delta_nDays_combine
    using ne by simp
  show ?thesis
  proof (cases "g < P \<or> last ?ds < ts_day")
    case True
    then show ?thesis unfolding unf by auto
  next
    case False
    with gle have gP: "g = P" and la: "ts_day \<le> last ?ds" by simp_all
    show ?thesis
    proof (cases "ts_day \<le> hd ?ds")
      case True
      have "hd ?ds \<in> set ?ds" using ne by simp
      moreover have "\<forall>e \<in> set ?ds. ts_day \<le> e \<longrightarrow> hd ?ds \<le> e"
        using sorted_hd_le[OF so] by blast
      moreover have "next_step_day s ts = Inr (combine (S g + (hd ?ds - base)) 0)"
        unfolding unf using False True by simp
      ultimately show ?thesis using gP True by blast
    next
      case F2: False
      from first_ge_mem[OF ne, of ts_day] obtain d where
        d: "first_ge ts_day ?ds = Some d" "d \<in> set ?ds" by blast
      have "ts_day \<le> d" by (rule first_ge_ge[OF la d(1)])
      moreover have "\<forall>e \<in> set ?ds. ts_day \<le> e \<longrightarrow> d \<le> e"
        using first_ge_least[OF so d(1)] by blast
      moreover have "next_step_day s ts = Inr (combine (S g + (d - base)) 0)"
        unfolding unf using False F2 d(1) by simp
      ultimately show ?thesis using gP d(2) by blast
    qed
  qed
qed

lemma prev_step_day_periodic:
  assumes per: "periodic s S p base" and ne: "days s ts \<noteq> []" and so: "sorted (days s ts)"
  defines "P \<equiv> p (date_of ts)"
  defines "g \<equiv> fl (nInterval s) (p (date_of (start s))) P"
  defines "ts_day \<equiv> (if time_of ts \<le> time_of (start s)
                        then date_of ts - S (p (date_of ts)) + base - 1
                        else date_of ts - S (p (date_of ts)) + base)"
  shows "(g = P \<and> ts_day < hd (days s ts) \<and>
          prev_step_day s ts = Inr (combine (S (g - nInterval s) + (last (days s ts) - base)) 0)) \<or>
         (g < P \<and> prev_step_day s ts = Inr (combine (S g + (last (days s ts) - base)) 0)) \<or>
         (g = P \<and> (\<exists>d \<in> set (days s ts). d \<le> ts_day \<and>
             (\<forall>e \<in> set (days s ts). e \<le> ts_day \<longrightarrow> e \<le> d) \<and>
             prev_step_day s ts = Inr (combine (S g + (d - base)) 0)))"
proof -
  let ?ds = "days s ts"
  have gle: "g \<le> P" unfolding g_def P_def by (rule fl_le[OF periodicD(1)[OF per]])
  have td: "ts_day = (if time_of ts \<le> time_of (start s) then period_day s ts - 1 else period_day s ts)"
    unfolding ts_day_def periodicD(6)[OF per] by simp
  have lt: "(combine (S g) 0 < combine (S P) 0) = (g < P)"
    unfolding combine_zero_less by (rule S_less_iff[OF per])
  have srt: "sort ?ds = ?ds" using so by (rule sorted_sort_id)
  have unf: "prev_step_day s ts =
     (if g < P then Inr (combine (S g + (last ?ds - base)) 0)
      else if ts_day < hd ?ds then Inr (combine (S (g - nInterval s) + (last ?ds - base)) 0)
      else if last ?ds \<le> ts_day then Inr (combine (S g + (last ?ds - base)) 0)
      else (case first_le ts_day (rev ?ds) of None \<Rightarrow> Inl UnboundLocalError
            | Some d \<Rightarrow> Inr (combine (S g + (d - base)) 0)))"
    unfolding prev_step_day_def periodicD(8)[OF per] periodicD(10)[OF per] periodicD(5)[OF per]
      periodicD(7)[OF per] option.case Let_def td[symmetric] P_def[symmetric] g_def[symmetric]
      lt delta_nDays_combine srt
    using ne by simp
  show ?thesis
  proof (cases "g < P")
    case True
    then show ?thesis unfolding unf by simp
  next
    case False
    with gle have gP: "g = P" by simp
    show ?thesis
    proof (cases "ts_day < hd ?ds")
      case True
      then show ?thesis unfolding unf using gP by simp
    next
      case F2: False
      show ?thesis
      proof (cases "last ?ds \<le> ts_day")
        case True
        have "last ?ds \<in> set ?ds" using ne by simp
        moreover have "\<forall>e \<in> set ?ds. e \<le> ts_day \<longrightarrow> e \<le> last ?ds"
          using sorted_le_last[OF so] by blast
        moreover have "prev_step_day s ts = Inr (combine (S g + (last ?ds - base)) 0)"
          unfolding unf using False F2 True by simp
        ultimately show ?thesis using gP True by blast
      next
        case F3: False
        have rne: "rev ?ds \<noteq> []" using ne by simp
        from first_le_mem[OF rne, of ts_day] obtain d where
          d: "first_le ts_day (rev ?ds) = Some d" "d \<in> set ?ds" by auto
        have "last (rev ?ds) \<le> ts_day" using F2 ne by (simp add: last_rev)
        then have "d \<le> ts_day" using d(1) by (rule first_le_le)
        moreover have "\<forall>e \<in> set ?ds. e \<le> ts_day \<longrightarrow> e \<le> d"
          using first_le_greatest[of "rev ?ds" ts_day d] so d(1) by simp
        moreover have "prev_step_day s ts = Inr (combine (S g + (d - base)) 0)"
          unfolding unf using False F2 F3 d(1) by simp
        ultimately show ?thesis using gP d(2) by blast
      qed
    qed
  qed
qed

lemma S_inj: assumes "periodic s S p base" "S a = S b" shows "a = b"
proof (rule ccontr)
  assume "a \<noteq> b"
  then have "a < b \<or> b < a" by auto
  then have "S a < S b \<or> S b < S a" using periodicD(2)[OF assms(1)] by blast
  with assms(2) show False by simp
qed

lemma p_mono: assumes per: "periodic s S p base" and "d \<le> e" shows "p d \<le> p e"
proof (rule ccontr)
  assume "\<not> p d \<le> p e"
  then have "p e + 1 \<le> p d" by simp
  from S_le[OF per this] periodicD(4)[OF per, of e] periodicD(3)[OF per, of d] assms(2)
  show False by simp
qed

lemma on_grid_iff:
  assumes per: "periodic s S p base"
  shows "on_grid s x =
     (time_of x = time_of (start s) \<and>
      (p (date_of x) - p (date_of (start s))) mod nInterval s = 0 \<and>
      date_of x - S (p (date_of x)) + base \<in> set (days s x))"
proof -
  have "(combine (S (fl (nInterval s) (p (date_of (start s))) (p (date_of x)))) 0 =
         combine (S (p (date_of x))) 0) =
        (fl (nInterval s) (p (date_of (start s))) (p (date_of x)) = p (date_of x))"
    using S_inj[OF per] by (auto simp: combine_def)
  then show ?thesis
    unfolding on_grid_def periodicD(8)[OF per] periodicD(5)[OF per] periodicD(6)[OF per]
      option.inject fl_fix_iff[OF periodicD(1)[OF per]]
    by simp
qed

lemma on_grid_point:
  assumes per: "periodic s S p base"
    and q: "(q - p (date_of (start s))) mod nInterval s = 0"
    and fit: "S q \<le> X" "X < S (q + 1)"
    and d: "X - S q + base \<in> set (days s (combine X (time_of (start s))))"
  shows "on_grid s (combine X (time_of (start s)))"
proof -
  have dt: "date_of (combine X (time_of (start s))) = X"
    "time_of (combine X (time_of (start s))) = time_of (start s)"
    using time_of_range[of "start s"] by (simp_all add: date_of_combine time_of_combine)
  have pX: "p X = q" by (rule p_unique[OF per fit])
  show ?thesis
    unfolding on_grid_iff[OF per] dt pX using q d by simp
qed

lemma next_bound:
  assumes per: "periodic s S p base" and ne: "days s ts \<noteq> []" and so: "sorted (days s ts)"
    and lo: "\<forall>d \<in> set (days s ts). base \<le> d"
  shows "\<exists>X. next_step_day s ts = Inr (combine X 0) \<and> ts < combine X (time_of (start s))"
proof -
  let ?ds = "days s ts"
  let ?D = "date_of ts"
  let ?P = "p ?D"
  let ?g = "fl (nInterval s) (p (date_of (start s))) ?P"
  let ?t0 = "time_of (start s)"
  let ?td = "if ?t0 \<le> time_of ts then ?D - S ?P + base + 1 else ?D - S ?P + base"
  note n1 = periodicD(1)[OF per]
  note lc = less_combine_iff[OF time_of_range(1)[of "start s"] time_of_range(2)[of "start s"]]
  from next_step_day_periodic[OF per ne so]
  consider (A) "next_step_day s ts = Inr (combine (S (?g + nInterval s) + (hd ?ds - base)) 0)"
    | (B) d where "?g = ?P" "d \<in> set ?ds" "?td \<le> d"
        "next_step_day s ts = Inr (combine (S ?g + (d - base)) 0)"
    by blast
  then show ?thesis
  proof cases
    case A
    have "?P + 1 \<le> ?g + nInterval s" using fl_gt[OF n1, of ?P "p (date_of (start s))"] by simp
    from S_le[OF per this] periodicD(4)[OF per, of ?D]
    have "?D < S (?g + nInterval s)" by simp
    moreover have "base \<le> hd ?ds" using lo ne by simp
    ultimately have "?D < S (?g + nInterval s) + (hd ?ds - base)" by simp
    then have "ts < combine (S (?g + nInterval s) + (hd ?ds - base)) ?t0" unfolding lc by simp
    with A show ?thesis by blast
  next
    case B
    have "ts < combine (S ?g + (d - base)) ?t0"
      unfolding lc B(1) using B(3) by (auto split: if_splits)
    with B(4) show ?thesis by blast
  qed
qed

lemma prev_bound:
  assumes per: "periodic s S p base" and ne: "days s ts \<noteq> []" and so: "sorted (days s ts)"
    and hi: "\<forall>d \<in> set (days s ts). \<forall>q. S q + (d - base) < S (q + 1)"
  shows "\<exists>X. prev_step_day s ts = Inr (combine X 0) \<and> combine X (time_of (start s)) < ts"
proof -
  let ?ds = "days s ts"
  let ?D = "date_of ts"
  let ?P = "p ?D"
  let ?g = "fl (nInterval s) (p (date_of (start s))) ?P"
  let ?t0 = "time_of (start s)"
  let ?td = "if time_of ts \<le> ?t0 then ?D - S ?P + base - 1 else ?D - S ?P + base"
  note n1 = periodicD(1)[OF per]
  note lc = combine_less_iff2[OF time_of_range(1)[of "start s"] time_of_range(2)[of "start s"]]
  have la: "last ?ds \<in> set ?ds" using ne by simp
  have fit: "S q + (last ?ds - base) < S (q + 1)" for q using hi la by blast
  from prev_step_day_periodic[OF per ne so]
  consider (A) "?g = ?P"
       "prev_step_day s ts = Inr (combine (S (?g - nInterval s) + (last ?ds - base)) 0)"
    | (B) "?g < ?P" "prev_step_day s ts = Inr (combine (S ?g + (last ?ds - base)) 0)"
    | (C) d where "?g = ?P" "d \<in> set ?ds" "d \<le> ?td"
        "prev_step_day s ts = Inr (combine (S ?g + (d - base)) 0)"
    by blast
  then show ?thesis
  proof cases
    case A
    have "?g - nInterval s + 1 \<le> ?P" using A(1) n1 by simp
    from S_le[OF per this] fit[of "?g - nInterval s"] periodicD(3)[OF per, of ?D]
    have "S (?g - nInterval s) + (last ?ds - base) < ?D" by linarith
    then have "combine (S (?g - nInterval s) + (last ?ds - base)) ?t0 < ts" unfolding lc by simp
    with A(2) show ?thesis by blast
  next
    case B
    then have "?g + 1 \<le> ?P" by simp
    from S_le[OF per this] fit[of ?g] periodicD(3)[OF per, of ?D]
    have "S ?g + (last ?ds - base) < ?D" by linarith
    then have "combine (S ?g + (last ?ds - base)) ?t0 < ts" unfolding lc by simp
    with B(2) show ?thesis by blast
  next
    case C
    have "combine (S ?g + (d - base)) ?t0 < ts"
      unfolding lc C(1) using C(3) by (auto split: if_splits)
    with C(4) show ?thesis by blast
  qed
qed

lemma grid_above:
  assumes per: "periodic s S p base" and og: "on_grid s x" and lt: "ts < x"
  shows "date_of ts \<le> date_of x"
    and "date_of ts = date_of x \<Longrightarrow> time_of ts < time_of (start s)"
proof -
  have x: "x = combine (date_of x) (time_of (start s))"
    using og combine_date_time[of x] unfolding on_grid_def by simp
  from lt have "ts < combine (date_of x) (time_of (start s))" using x by simp
  then have c: "date_of ts < date_of x \<or> (date_of ts = date_of x \<and> time_of ts < time_of (start s))"
    unfolding less_combine_iff[OF time_of_range(1)[of "start s"] time_of_range(2)[of "start s"]] .
  then show "date_of ts \<le> date_of x" by auto
  from c show "date_of ts = date_of x \<Longrightarrow> time_of ts < time_of (start s)" by auto
qed

lemma grid_le:
  assumes og: "on_grid s x" and le: "X \<le> date_of x"
  shows "combine X (time_of (start s)) \<le> x"
proof -
  have x: "x = combine (date_of x) (time_of (start s))"
    using og combine_date_time[of x] unfolding on_grid_def by simp
  have "combine X (time_of (start s)) \<le> combine (date_of x) (time_of (start s))"
    unfolding combine_le_iff[OF time_of_range(1)[of "start s"] time_of_range(2)[of "start s"]
      time_of_range(1)[of "start s"] time_of_range(2)[of "start s"]] using le by auto
  with x show ?thesis by simp
qed

lemma Inr_combine_inj: "Inr (combine X 0) = (Inr (combine Y 0) :: py_error + instant) \<Longrightarrow> X = Y"
  by (simp add: combine_def)

lemma next_exact:
  assumes per: "periodic s S p base" and dc: "\<And>x. days s x = ds"
    and ne: "ds \<noteq> []" and so: "sorted ds"
    and lo: "\<forall>d \<in> set ds. base \<le> d"
    and hi: "\<forall>d \<in> set ds. \<forall>q. S q + (d - base) < S (q + 1)"
  shows "\<exists>X. next_step_day s ts = Inr (combine X 0) \<and>
           on_grid s (combine X (time_of (start s))) \<and>
           ts < combine X (time_of (start s)) \<and>
           (\<forall>x. on_grid s x \<and> ts < x \<longrightarrow> combine X (time_of (start s)) \<le> x)"
proof -
  let ?D = "date_of ts"
  let ?P = "p ?D"
  let ?p0 = "p (date_of (start s))"
  let ?n = "nInterval s"
  let ?g = "fl ?n ?p0 ?P"
  let ?t0 = "time_of (start s)"
  let ?td = "if ?t0 \<le> time_of ts then ?D - S ?P + base + 1 else ?D - S ?P + base"
  note n1 = periodicD(1)[OF per]
  have ne': "days s ts \<noteq> []" and so': "sorted (days s ts)"
    and lo': "\<forall>d \<in> set (days s ts). base \<le> d"
    unfolding dc using ne so lo by simp_all
  from next_bound[OF per ne' so' lo'] obtain X0 where
    X0: "next_step_day s ts = Inr (combine X0 0)" "ts < combine X0 ?t0" by blast
  have ga: "(?g - ?p0) mod ?n = 0" by (rule fl_aligned)
  have gle: "?g \<le> ?P" by (rule fl_le[OF n1])
  \<comment> \<open>what every grid instant after \<open>ts\<close> looks like\<close>
  have above: "False"
    if og: "on_grid s x" and lt: "ts < x" and qP: "p (date_of x) = ?P" and
      small: "date_of x - S ?P + base < ?td" for x
  proof -
    from grid_above[OF per og lt] have a: "?D \<le> date_of x"
      "?D = date_of x \<Longrightarrow> time_of ts < ?t0" by simp_all
    show False
    proof (cases "?t0 \<le> time_of ts")
      case True
      with small a(1) have "?D = date_of x" by simp
      with a(2) True show False by simp
    next
      case False
      with small a(1) show False by simp
    qed
  qed
  from next_step_day_periodic[OF per ne' so'] dc
  consider (A) "?g < ?P \<or> last ds < ?td"
        "next_step_day s ts = Inr (combine (S (?g + ?n) + (hd ds - base)) 0)"
    | (B) d where "?g = ?P" "d \<in> set ds" "?td \<le> d" "\<forall>e \<in> set ds. ?td \<le> e \<longrightarrow> d \<le> e"
        "next_step_day s ts = Inr (combine (S ?g + (d - base)) 0)"
    by auto
  then show ?thesis
  proof cases
    case A
    let ?X = "S (?g + ?n) + (hd ds - base)"
    have XX: "X0 = ?X" using X0(1) A(2) by (simp add: combine_def)
    have hd: "hd ds \<in> set ds" using ne by simp
    have fit: "S (?g + ?n) \<le> ?X" "?X < S (?g + ?n + 1)" using lo hi hd by auto
    have og: "on_grid s (combine ?X ?t0)"
      by (rule on_grid_point[OF per aligned_shift(1)[OF ga] fit]) (simp add: dc hd)
    have mini: "combine ?X ?t0 \<le> x" if ogx: "on_grid s x" and lt: "ts < x" for x
    proof (rule grid_le[OF ogx], rule ccontr)
      assume "\<not> ?X \<le> date_of x"
      then have c: "date_of x < ?X" by simp
      let ?q = "p (date_of x)"
      let ?e = "date_of x - S ?q + base"
      from ogx have qa: "(?q - ?p0) mod ?n = 0" and e: "?e \<in> set ds"
        unfolding on_grid_iff[OF per] dc by simp_all
      from grid_above(1)[OF per ogx lt] have DD: "?D \<le> date_of x" .
      have Pq: "?P \<le> ?q" by (rule p_mono[OF per DD])
      have "?q < ?g + ?n"
      proof (rule ccontr)
        assume "\<not> ?q < ?g + ?n"
        then have "?g + ?n \<le> ?q" by simp
        from S_le[OF per this] sorted_hd_le[OF so e] c show False by simp
      qed
      moreover have "?g + ?n \<le> ?q" if "?g < ?q" by (rule aligned_gap[OF n1 ga qa that])
      ultimately have "?q \<le> ?g" by fastforce
      with gle Pq have qP: "?q = ?P" and gP: "?g = ?P" by simp_all
      with A(1) have "last ds < ?td" by simp
      with sorted_le_last[OF so e] have "?e < ?td" by simp
      then have "date_of x - S ?P + base < ?td" unfolding qP .
      from above[OF ogx lt qP this] show False .
    qed
    show ?thesis using A(2) og X0(2) mini unfolding XX by blast
  next
    case B
    let ?X = "S ?g + (d - base)"
    have XX: "X0 = ?X" using X0(1) B(5) by (simp add: combine_def)
    have fit: "S ?g \<le> ?X" "?X < S (?g + 1)" using lo hi B(2) by auto
    have og: "on_grid s (combine ?X ?t0)"
      by (rule on_grid_point[OF per ga fit]) (simp add: dc B(2))
    have mini: "combine ?X ?t0 \<le> x" if ogx: "on_grid s x" and lt: "ts < x" for x
    proof (rule grid_le[OF ogx], rule ccontr)
      assume "\<not> ?X \<le> date_of x"
      then have c: "date_of x < ?X" by simp
      from ogx have e: "date_of x - S (p (date_of x)) + base \<in> set ds"
        unfolding on_grid_iff[OF per] dc by simp
      from grid_above(1)[OF per ogx lt] have DD: "?D \<le> date_of x" .
      have "S ?P \<le> date_of x" using periodicD(3)[OF per, of ?D] DD by simp
      moreover have "date_of x < S (?P + 1)" using c fit(2) B(1) by simp
      ultimately have qP: "p (date_of x) = ?P" by (rule p_unique[OF per])
      have "date_of x - S ?P + base < d" using c B(1) by simp
      moreover have "date_of x - S ?P + base \<in> set ds" using e qP by simp
      ultimately have "date_of x - S ?P + base < ?td" using B(4) by fastforce
      from above[OF ogx lt qP this] show False .
    qed
    show ?thesis using B(5) og X0(2) mini unfolding XX by blast
  qed
qed

lemma grid_below:
  assumes per: "periodic s S p base" and og: "on_grid s x" and lt: "x < ts"
  shows "date_of x \<le> date_of ts"
    and "date_of x = date_of ts \<Longrightarrow> time_of (start s) < time_of ts"
proof -
  have x: "x = combine (date_of x) (time_of (start s))"
    using og combine_date_time[of x] unfolding on_grid_def by simp
  from lt have "combine (date_of x) (time_of (start s)) < ts" using x by simp
  then have c: "date_of x < date_of ts \<or> (date_of x = date_of ts \<and> time_of (start s) < time_of ts)"
    unfolding combine_less_iff2[OF time_of_range(1)[of "start s"] time_of_range(2)[of "start s"]] .
  then show "date_of x \<le> date_of ts" by auto
  from c show "date_of x = date_of ts \<Longrightarrow> time_of (start s) < time_of ts" by auto
qed

lemma grid_ge:
  assumes og: "on_grid s x" and le: "date_of x \<le> X"
  shows "x \<le> combine X (time_of (start s))"
proof -
  have x: "x = combine (date_of x) (time_of (start s))"
    using og combine_date_time[of x] unfolding on_grid_def by simp
  have "combine (date_of x) (time_of (start s)) \<le> combine X (time_of (start s))"
    unfolding combine_le_iff[OF time_of_range(1)[of "start s"] time_of_range(2)[of "start s"]
      time_of_range(1)[of "start s"] time_of_range(2)[of "start s"]] using le by auto
  with x show ?thesis by simp
qed

lemma prev_exact:
  assumes per: "periodic s S p base" and dc: "\<And>x. days s x = ds"
    and ne: "ds \<noteq> []" and so: "sorted ds"
    and lo: "\<forall>d \<in> set ds. base \<le> d"
    and hi: "\<forall>d \<in> set ds. \<forall>q. S q + (d - base) < S (q + 1)"
  shows "\<exists>X. prev_step_day s ts = Inr (combine X 0) \<and>
           on_grid s (combine X (time_of (start s))) \<and>
           combine X (time_of (start s)) < ts \<and>
           (\<forall>x. on_grid s x \<and> x < ts \<longrightarrow> x \<le> combine X (time_of (start s)))"
proof -
  let ?D = "date_of ts"
  let ?P = "p ?D"
  let ?p0 = "p (date_of (start s))"
  let ?n = "nInterval s"
  let ?g = "fl ?n ?p0 ?P"
  let ?t0 = "time_of (start s)"
  let ?td = "if time_of ts \<le> ?t0 then ?D - S ?P + base - 1 else ?D - S ?P + base"
  note n1 = periodicD(1)[OF per]
  have ne': "days s ts \<noteq> []" and so': "sorted (days s ts)"
    and hi': "\<forall>d \<in> set (days s ts). \<forall>q. S q + (d - base) < S (q + 1)"
    unfolding dc using ne so hi by simp_all
  from prev_bound[OF per ne' so' hi'] obtain X0 where
    X0: "prev_step_day s ts = Inr (combine X0 0)" "combine X0 ?t0 < ts" by blast
  have ga: "(?g - ?p0) mod ?n = 0" by (rule fl_aligned)
  have gle: "?g \<le> ?P" by (rule fl_le[OF n1])
  have la: "last ds \<in> set ds" using ne by simp
  have below: "False"
    if og: "on_grid s x" and lt: "x < ts" and qP: "p (date_of x) = ?P" and
      big: "?td < date_of x - S ?P + base" for x
  proof -
    from grid_below[OF per og lt] have a: "date_of x \<le> ?D"
      "date_of x = ?D \<Longrightarrow> ?t0 < time_of ts" by simp_all
    show False
    proof (cases "time_of ts \<le> ?t0")
      case True
      with big a(1) have "date_of x = ?D" by simp
      with a(2) True show False by simp
    next
      case False
      with big a(1) show False by simp
    qed
  qed
  from prev_step_day_periodic[OF per ne' so'] dc
  consider (A) "?g = ?P" "?td < hd ds"
        "prev_step_day s ts = Inr (combine (S (?g - ?n) + (last ds - base)) 0)"
    | (B) "?g < ?P" "prev_step_day s ts = Inr (combine (S ?g + (last ds - base)) 0)"
    | (C) d where "?g = ?P" "d \<in> set ds" "d \<le> ?td" "\<forall>e \<in> set ds. e \<le> ?td \<longrightarrow> e \<le> d"
        "prev_step_day s ts = Inr (combine (S ?g + (d - base)) 0)"
    by auto
  then show ?thesis
  proof cases
    case A
    let ?X = "S (?g - ?n) + (last ds - base)"
    have XX: "X0 = ?X" using X0(1) A(3) by (simp add: combine_def)
    have fit: "S (?g - ?n) \<le> ?X" "?X < S (?g - ?n + 1)" using lo hi la by auto
    have og: "on_grid s (combine ?X ?t0)"
      by (rule on_grid_point[OF per aligned_shift(2)[OF ga] fit]) (simp add: dc la)
    have maxi: "x \<le> combine ?X ?t0" if ogx: "on_grid s x" and lt: "x < ts" for x
    proof (rule grid_ge[OF ogx], rule ccontr)
      assume "\<not> date_of x \<le> ?X"
      then have c: "?X < date_of x" by simp
      let ?q = "p (date_of x)"
      let ?e = "date_of x - S ?q + base"
      from ogx have qa: "(?q - ?p0) mod ?n = 0" and e: "?e \<in> set ds"
        unfolding on_grid_iff[OF per] dc by simp_all
      from grid_below(1)[OF per ogx lt] have DD: "date_of x \<le> ?D" .
      have qP': "?q \<le> ?P" by (rule p_mono[OF per DD])
      have "?g - ?n < ?q"
      proof (rule ccontr)
        assume "\<not> ?g - ?n < ?q"
        then have "?q \<le> ?g - ?n" by simp
        from S_le[OF per this] sorted_le_last[OF so e] c show False by simp
      qed
      moreover have "?q + ?n \<le> ?g" if "?q < ?g" by (rule aligned_gap[OF n1 qa ga that])
      ultimately have "?g \<le> ?q" by fastforce
      with qP' A(1) have qP: "?q = ?P" by simp
      from sorted_hd_le[OF so e] A(2) have "?td < ?e" by simp
      then have "?td < date_of x - S ?P + base" unfolding qP .
      from below[OF ogx lt qP this] show False .
    qed
    show ?thesis using A(3) og X0(2) maxi unfolding XX by blast
  next
    case B
    let ?X = "S ?g + (last ds - base)"
    have XX: "X0 = ?X" using X0(1) B(2) by (simp add: combine_def)
    have fit: "S ?g \<le> ?X" "?X < S (?g + 1)" using lo hi la by auto
    have og: "on_grid s (combine ?X ?t0)"
      by (rule on_grid_point[OF per ga fit]) (simp add: dc la)
    have maxi: "x \<le> combine ?X ?t0" if ogx: "on_grid s x" and lt: "x < ts" for x
    proof (rule grid_ge[OF ogx], rule ccontr)
      assume "\<not> date_of x \<le> ?X"
      then have c: "?X < date_of x" by simp
      let ?q = "p (date_of x)"
      let ?e = "date_of x - S ?q + base"
      from ogx have qa: "(?q - ?p0) mod ?n = 0" and e: "?e \<in> set ds"
        unfolding on_grid_iff[OF per] dc by simp_all
      from grid_below(1)[OF per ogx lt] have DD: "date_of x \<le> ?D" .
      have qP': "?q \<le> ?P" by (rule p_mono[OF per DD])
      have "?g < ?q"
      proof (rule ccontr)
        assume "\<not> ?g < ?q"
        then have "?q \<le> ?g" by simp
        from S_le[OF per this] sorted_le_last[OF so e] c show False by simp
      qed
      from aligned_gap[OF n1 ga qa this] qP' fl_gt[OF n1, of ?P ?p0] show False by simp
    qed
    show ?thesis using B(2) og X0(2) maxi unfolding XX by blast
  next
    case C
    let ?X = "S ?g + (d - base)"
    have XX: "X0 = ?X" using X0(1) C(5) by (simp add: combine_def)
    have fit: "S ?g \<le> ?X" "?X < S (?g + 1)" using lo hi C(2) by auto
    have og: "on_grid s (combine ?X ?t0)"
      by (rule on_grid_point[OF per ga fit]) (simp add: dc C(2))
    have maxi: "x \<le> combine ?X ?t0" if ogx: "on_grid s x" and lt: "x < ts" for x
    proof (rule grid_ge[OF ogx], rule ccontr)
      assume "\<not> date_of x \<le> ?X"
      then have c: "?X < date_of x" by simp
      from ogx have e: "date_of x - S (p (date_of x)) + base \<in> set ds"
        unfolding on_grid_iff[OF per] dc by simp
      from grid_below(1)[OF per ogx lt] have DD: "date_of x \<le> ?D" .
      have "S ?P \<le> date_of x" using c fit(1) C(1) by simp
      moreover have "date_of x < S (?P + 1)" using periodicD(4)[OF per, of ?D] DD by simp
      ultimately have qP: "p (date_of x) = ?P" by (rule p_unique[OF per])
      have "d < date_of x - S ?P + base" using c C(1) by simp
      moreover have "date_of x - S ?P + base \<in> set ds" using e qP by simp
      ultimately have "?td < date_of x - S ?P + base" using C(4) by fastforce
      from below[OF ogx lt qP this] show False .
    qed
    show ?thesis using C(5) og X0(2) maxi unfolding XX by blast
  qed
qed

end
